theory Spec2Isabelle
  imports Complex_Main "HOL-Library.Word" "HOL-Library.Log_Nat" "HOL-Library.Multiset"
begin

section \<open>Go integers\<close>

text \<open>
  Go's \<open>int\<close> on the 64-bit targets the service is built for (the Dockerfile builds
  for linux) is a 64-bit two's complement integer: arithmetic wraps around, comparisons
  are signed. It is a \<open>64 word\<close>, read with \<open>sint\<close>.
\<close>

type_synonym goint = "64 word"

definition MaxInt :: goint where
  "MaxInt = 9223372036854775807"

text \<open>Go's builtin \<open>min\<close> on two ints (a signed comparison).\<close>

definition go_min :: "goint \<Rightarrow> goint \<Rightarrow> goint" where
  "go_min x y = (if sint y < sint x then y else x)"

section \<open>Items, filters and pagination metadata\<close>

text \<open>
  The Go file that declares \<open>NewsItem\<close>, \<open>Metadata\<close>, \<open>calculateMetadata\<close> and \<open>Filters\<close>
  (in the sources it follows the compose file in \<open>src/docker-compose.yml\<close>).
  \<open>Published\<close> is a time, kept as a number.
\<close>

record NewsItem =
  ID :: goint
  Title :: string
  Link :: string
  Published :: nat
  Description :: string
  Image :: string

record Metadata =
  CurrentPage :: goint
  PageSize_meta :: goint
  FirstPage :: goint
  LastPage :: goint
  TotalRecords :: goint

record Filters =
  Page :: goint
  PageSize :: goint

definition defaultFilters :: Filters where
  "defaultFilters = \<lparr>Page = 1, PageSize = 5\<rparr>"

text \<open>
  \<open>validate\<close> mutates the receiver: the model returns the updated filters. The two
  \<open>if\<close> statements run one after the other, each on its own field.
\<close>

definition validate :: "Filters \<Rightarrow> Filters \<Rightarrow> Filters" where
  "validate f d =
     (let f1 = (if sint (Page f) < 1 then f\<lparr>Page := Page d\<rparr> else f);
          f2 = (if sint (PageSize f1) < 1 then f1\<lparr>PageSize := PageSize d\<rparr> else f1)
      in f2)"

definition limit :: "Filters \<Rightarrow> goint" where
  "limit f = PageSize f"

definition offset :: "Filters \<Rightarrow> goint" where
  "offset f = (let off = (Page f - 1) * PageSize f in go_min off MaxInt)"

section \<open>float64 arithmetic\<close>

text \<open>
  \<open>calculateMetadata\<close> computes the last page in \<open>float64\<close>. A binary64 value is a
  rational with a 53-bit significand, an infinity or NaN (the sign of zero is not
  kept: \<open>float64\<close> of an int is never \<open>-0\<close>). Operations round the exact
  result to the nearest representable value, ties to even.
\<close>

datatype f64 = Finite rat | PosInf | NegInf | NaN

text \<open>\<open>ilog2 x\<close> is the binary exponent of a positive \<open>x\<close>: \<open>2^e \<le> x < 2^(e+1)\<close>.\<close>

definition ilog2 :: "rat \<Rightarrow> int" where
  "ilog2 x =
     (let (p, q) = quotient_of x; d = bitlen p - bitlen q
      in if 2 powi d \<le> x then d else d - 1)"

definition round_half_even :: "rat \<Rightarrow> int" where
  "round_half_even x =
     (let f = \<lfloor>x\<rfloor>; d = x - of_int f
      in if d < 1 / 2 then f else if 1 / 2 < d then f + 1
         else if even f then f else f + 1)"

text \<open>
  Rounding to binary64: the spacing of representable values around \<open>x\<close> is
  \<open>2^(e-52)\<close> (\<open>2^-1074\<close> in the subnormal range); results of magnitude \<open>2^1024\<close> or
  more overflow to an infinity.
\<close>

definition round_to_f64 :: "rat \<Rightarrow> f64" where
  "round_to_f64 x =
     (if x = 0 then Finite 0
      else let e = ilog2 \<bar>x\<bar>;
               u = 2 powi (max (e - 52) (- 1074));
               y = of_int (round_half_even (\<bar>x\<bar> / u)) * u
           in if 2 ^ 1024 \<le> y then (if 0 < x then PosInf else NegInf)
              else Finite (sgn x * y))"

text \<open>The conversion \<open>float64(n)\<close> of an int.\<close>

definition float64 :: "goint \<Rightarrow> f64" where
  "float64 n = round_to_f64 (of_int (sint n))"

text \<open>The quotient \<open>x / y\<close> of two float64 values (IEEE 754 division).\<close>

fun fdiv :: "f64 \<Rightarrow> f64 \<Rightarrow> f64" where
  "fdiv NaN _ = NaN"
| "fdiv _ NaN = NaN"
| "fdiv (Finite x) (Finite y) =
     (if y = 0 then (if x = 0 then NaN else if 0 < x then PosInf else NegInf)
      else round_to_f64 (x / y))"
| "fdiv (Finite x) _ = Finite 0"
| "fdiv PosInf (Finite y) = (if 0 \<le> y then PosInf else NegInf)"
| "fdiv NegInf (Finite y) = (if 0 \<le> y then NegInf else PosInf)"
| "fdiv _ _ = NaN"

text \<open>\<open>math.Ceil\<close>: the least integer value not below \<open>x\<close>; infinities and NaN pass.\<close>

fun Ceil :: "f64 \<Rightarrow> f64" where
  "Ceil (Finite x) = Finite (of_int \<lceil>x\<rceil>)"
| "Ceil x = x"

text \<open>
  The conversion \<open>int(x)\<close> of a float64 discards the fraction. Where the value is not
  representable as an int (out of range, an infinity, NaN) the Go specification leaves
  the result to the implementation: \<open>None\<close>.
\<close>

fun int_of_f64 :: "f64 \<Rightarrow> goint option" where
  "int_of_f64 (Finite x) =
     (let t = (if 0 \<le> x then \<lfloor>x\<rfloor> else \<lceil>x\<rceil>)
      in if - (2 ^ 63) \<le> t \<and> t < 2 ^ 63 then Some (word_of_int t) else None)"
| "int_of_f64 _ = None"

section \<open>calculateMetadata\<close>

text \<open>
  The result is \<open>None\<close> where \<open>LastPage\<close> would be the implementation-dependent
  conversion of a float64 that no int represents.
\<close>

definition calculateMetadata :: "goint \<Rightarrow> goint \<Rightarrow> goint \<Rightarrow> Metadata option" where
  "calculateMetadata totalRecords page pageSize =
     (if totalRecords = 0
      then Some \<lparr>CurrentPage = 0, PageSize_meta = 0, FirstPage = 0, LastPage = 0,
                  TotalRecords = 0\<rparr>
      else case int_of_f64 (Ceil (fdiv (float64 totalRecords) (float64 pageSize))) of
             None \<Rightarrow> None
           | Some lastPage \<Rightarrow>
               Some \<lparr>CurrentPage = page, PageSize_meta = pageSize, FirstPage = 1,
                      LastPage = lastPage, TotalRecords = totalRecords\<rparr>)"

section \<open>Errors\<close>

text \<open>
  Go errors as values. \<open>Wrap msg e\<close> is \<open>fmt.Errorf\<close> with a format made of the text
  \<open>msg\<close> and \<open>%w\<close> for \<open>e\<close> (the separator between the two is not part of \<open>msg\<close>);
  \<open>External\<close> is
  an error that a library returns (the HTTP transport, a body read, the database
  driver, the feed parser, the queue); \<open>Panic\<close> is a run-time panic.
\<close>

datatype error =
    ErrAlreadyExists
  | ErrNotFound
  | ErrItemEmpty
  | ErrStatus int
  | External string
  | Wrap string error
  | Panic

text \<open>\<open>errors.Is\<close>: the target is the error itself or one it wraps.\<close>

fun errors_Is :: "error \<Rightarrow> error \<Rightarrow> bool" where
  "errors_Is (Wrap msg e) target = (Wrap msg e = target \<or> errors_Is e target)"
| "errors_Is e target = (e = target)"

section \<open>parser.go: fetching\<close>

text \<open>
  The functions of \<open>src/parser.go\<close> (its current revision, the one with \<open>getContents\<close>).
  The network is the environment of \<open>getContents\<close>: whether a request can be built for a
  URL (\<open>http.NewRequestWithContext\<close>), what \<open>http.DefaultClient.Do\<close> returns for it (a
  transport error, which includes the 60 second timeout, or a response), and what
  \<open>io.ReadAll\<close> of the response body gives. \<open>ParseString\<close> is the gofeed parser, reduced
  to the title and link of each item.
\<close>

record response =
  StatusCode :: int
  Body :: "error + string"

record world =
  NewRequest :: "string \<Rightarrow> error option"
  Do :: "string \<Rightarrow> error + response"
  ParseString :: "string \<Rightarrow> error + (string \<times> string) list"

definition StatusOK :: int where
  "StatusOK = 200"

definition getContents :: "world \<Rightarrow> string \<Rightarrow> error + string" where
  "getContents w url =
     (case NewRequest w url of
        Some err \<Rightarrow> Inl (Wrap ''failed to create request'' err)
      | None \<Rightarrow>
          (case Do w url of
             Inl err \<Rightarrow> Inl (Wrap ''failed to get feed'' err)
           | Inr resp \<Rightarrow>
               if StatusCode resp \<noteq> StatusOK then Inl (ErrStatus (StatusCode resp))
               else (case Body resp of
                       Inl err \<Rightarrow> Inl (Wrap ''failed to read body'' err)
                     | Inr body \<Rightarrow> Inr body)))"

text \<open>A fresh item with only title and link set (\<open>NewsItem{Title: .., Link: ..}\<close>).\<close>

definition new_item :: "string \<Rightarrow> string \<Rightarrow> NewsItem" where
  "new_item t l =
     \<lparr>ID = 0, Title = t, Link = l, Published = 0, Description = [], Image = []\<rparr>"

definition parseRSS :: "world \<Rightarrow> string \<Rightarrow> error + NewsItem list" where
  "parseRSS w feedBody =
     (case ParseString w feedBody of
        Inl err \<Rightarrow> Inl (Wrap ''failed to parse RSS feed'' err)
      | Inr feed \<Rightarrow> Inr (map (\<lambda>(t, l). new_item t l) feed))"

definition GetNews :: "world \<Rightarrow> string \<Rightarrow> error + NewsItem list" where
  "GetNews w rssUrl =
     (case getContents w rssUrl of
        Inl err \<Rightarrow> Inl (Wrap ''failed to get feed'' err)
      | Inr feedBody \<Rightarrow>
          (case parseRSS w feedBody of
             Inl err \<Rightarrow> Inl (Wrap ''failed to parse RSS'' err)
           | Inr items \<Rightarrow> Inr items))"

section \<open>Regular expressions\<close>

text \<open>
  The fragment of Go's \<open>regexp\<close> syntax that \<open>enrichmentTable\<close> uses: an optional
  \<open>(?i)\<close> flag, literal characters, \<open>[^x]+\<close> and the capturing group \<open>([^x]+)\<close>.
  Strings are byte sequences (UTF-8), as in Go.
\<close>

datatype atom = Lit bool char | NotPlus char | CapNotPlus char

definition is_letter :: "char \<Rightarrow> bool" where
  "is_letter c = (let n = (of_char c :: nat) in (97 \<le> n \<and> n \<le> 122) \<or> (65 \<le> n \<and> n \<le> 90))"

definition swap_case :: "char \<Rightarrow> char" where
  "swap_case c =
     (let n = (of_char c :: nat)
      in if 97 \<le> n \<and> n \<le> 122 then char_of (n - 32)
         else if 65 \<le> n \<and> n \<le> 90 then char_of (n + 32) else c)"

definition meta_chars :: "char list" where
  \<open>meta_chars = CHR 0x5C # ''.+*?()|[]{}^$''\<close>

definition starts_class :: "string \<Rightarrow> bool" where
  "starts_class s = (case s of [] \<Rightarrow> False | c # _ \<Rightarrow> c = CHR ''['' \<or> c = CHR ''('')"

text \<open>
  \<open>parse_items\<close> reads the pattern after the flag; \<open>None\<close> is a pattern outside the
  fragment (every pattern on which \<open>MustCompile\<close> panics is one). Literals are ASCII, the
  excluded character of a class is neither a letter nor a metacharacter, and a class is
  not followed directly by another class: on such patterns matching byte by byte, as
  \<open>match_here\<close> does, agrees with Go's matching rune by rune.
\<close>

fun parse_items :: "bool \<Rightarrow> string \<Rightarrow> atom list option" where
  "parse_items fc [] = Some []"
| "parse_items fc (c # cs) =
     (if c = CHR ''['' then
        (case cs of
           h # x # r # p # rest \<Rightarrow>
             if h = CHR ''^'' \<and> r = CHR '']'' \<and> p = CHR ''+''
                \<and> x \<notin> set meta_chars \<and> \<not> is_letter x \<and> \<not> starts_class rest
             then map_option (Cons (NotPlus x)) (parse_items fc rest) else None
         | _ \<Rightarrow> None)
      else if c = CHR ''('' then
        (case cs of
           b # h # x # r # p # e # rest \<Rightarrow>
             if b = CHR ''['' \<and> h = CHR ''^'' \<and> r = CHR '']'' \<and> p = CHR ''+'' \<and> e = CHR '')''
                \<and> x \<notin> set meta_chars \<and> \<not> is_letter x \<and> \<not> starts_class rest
             then map_option (Cons (CapNotPlus x)) (parse_items fc rest) else None
         | _ \<Rightarrow> None)
      else if c \<in> set meta_chars \<or> 128 \<le> (of_char c :: nat) then None
      else map_option (Cons (Lit fc c)) (parse_items fc cs))"

definition MustCompile :: "string \<Rightarrow> atom list option" where
  "MustCompile re =
     (if take 4 re = ''(?i)'' then parse_items True (drop 4 re) else parse_items False re)"

text \<open>
  A literal under \<open>(?i)\<close> matches either case of a letter and the characters that
  Unicode simple case folding puts in the same orbit: the long s (U+017F, bytes
  \<open>C5 BF\<close>) for \<open>s\<close> and the Kelvin sign (U+212A, bytes \<open>E2 84 AA\<close>) for \<open>k\<close>.
  The result is the input that remains after the literal.
\<close>

definition lit_match :: "bool \<Rightarrow> char \<Rightarrow> string \<Rightarrow> string option" where
  "lit_match fc c s =
     (case s of
        [] \<Rightarrow> None
      | d # r \<Rightarrow>
          if d = c \<or> (fc \<and> d = swap_case c) then Some r
          else if fc \<and> (c = CHR ''s'' \<or> c = CHR ''S'') then
            (case s of
               d1 # d2 # r2 \<Rightarrow>
                 if d1 = CHR 0xC5 \<and> d2 = CHR 0xBF then Some r2 else None
             | _ \<Rightarrow> None)
          else if fc \<and> (c = CHR ''k'' \<or> c = CHR ''K'') then
            (case s of
               d1 # d2 # d3 # r3 \<Rightarrow>
                 if d1 = CHR 0xE2 \<and> d2 = CHR 0x84 \<and> d3 = CHR 0xAA
                 then Some r3 else None
             | _ \<Rightarrow> None)
          else None)"

fun first_some :: "'a option list \<Rightarrow> 'a option" where
  "first_some [] = None"
| "first_some (None # xs) = first_some xs"
| "first_some (Some x # xs) = Some x"

text \<open>
  Go's \<open>regexp\<close> returns, among the matches that begin leftmost, the one a backtracking
  search finds first. \<open>match_here\<close> is that search at one starting position: \<open>+\<close> is
  greedy, so the longest run is tried first, then each shorter one down to a single
  character. The result is the remaining input and the text of the groups so far.
\<close>

fun match_here :: "atom list \<Rightarrow> string \<Rightarrow> string list \<Rightarrow> (string \<times> string list) option" where
  "match_here [] s caps = Some (s, caps)"
| "match_here (Lit fc c # as) s caps =
     (case lit_match fc c s of None \<Rightarrow> None | Some r \<Rightarrow> match_here as r caps)"
| "match_here (NotPlus c # as) s caps =
     first_some (map (\<lambda>k. match_here as (drop k s) caps)
                     (rev [1 ..< Suc (length (takeWhile (\<lambda>d. d \<noteq> c) s))]))"
| "match_here (CapNotPlus c # as) s caps =
     first_some (map (\<lambda>k. match_here as (drop k s) (caps @ [take k s]))
                     (rev [1 ..< Suc (length (takeWhile (\<lambda>d. d \<noteq> c) s))]))"

text \<open>
  \<open>FindStringSubmatch\<close>: the leftmost match as the list of the whole match followed by
  the groups; the empty list is Go's \<open>nil\<close> (no match).
\<close>

fun FindStringSubmatch :: "atom list \<Rightarrow> string \<Rightarrow> string list" where
  "FindStringSubmatch re [] =
     (case match_here re [] [] of Some (r, caps) \<Rightarrow> [] # caps | None \<Rightarrow> [])"
| "FindStringSubmatch re (c # s) =
     (case match_here re (c # s) [] of
        Some (r, caps) \<Rightarrow> take (length (c # s) - length r) (c # s) # caps
      | None \<Rightarrow> FindStringSubmatch re s)"

section \<open>parser.go: enrichment\<close>

text \<open>
  \<open>enrichmentTable\<close> is a Go map; \<open>range\<close> over it yields its entries in an order that
  Go does not specify. The functions below take that order as their first argument: any
  list with the entries of \<open>enrichmentTable\<close>.
\<close>

definition enrichmentTable :: "(string \<times> string) list" where
  \<open>enrichmentTable =
     [(''description'', ''(?i)<meta[^>]+name="description"[^>]+content="([^"]+)"''),
      (''image'', ''(?i)<meta[^>]+property="og:image"[^>]+content="([^"]+)"'')]\<close>

definition range_order :: "(string \<times> string) list \<Rightarrow> bool" where
  "range_order order = (mset order = mset enrichmentTable)"

text \<open>One iteration of the loop of \<open>extractEnrichments\<close>; \<open>None\<close> is a panic of \<open>MustCompile\<close>.\<close>

definition enrich_entry :: "string \<Rightarrow> (string \<rightharpoonup> string) \<Rightarrow> string \<times> string \<Rightarrow> (string \<rightharpoonup> string) option" where
  "enrich_entry html enrichments entry =
     (case MustCompile (snd entry) of
        None \<Rightarrow> None
      | Some re \<Rightarrow>
          let matches = FindStringSubmatch re html
          in if length matches > 1 then Some (enrichments(fst entry \<mapsto> matches ! 1))
             else Some enrichments)"

fun enrich_loop :: "(string \<times> string) list \<Rightarrow> string \<Rightarrow> (string \<rightharpoonup> string) \<Rightarrow> (string \<rightharpoonup> string) option" where
  "enrich_loop [] html enrichments = Some enrichments"
| "enrich_loop (entry # rest) html enrichments =
     (case enrich_entry html enrichments entry of
        None \<Rightarrow> None
      | Some enrichments' \<Rightarrow> enrich_loop rest html enrichments')"

text \<open>The result is the pair \<open>(enrichments, err)\<close> of the Go function, or \<open>None\<close> for a panic.\<close>

definition extractEnrichments :: "(string \<times> string) list \<Rightarrow> string \<Rightarrow> ((string \<rightharpoonup> string) \<times> error option) option" where
  "extractEnrichments order html =
     (case enrich_loop order html Map.empty of
        None \<Rightarrow> None
      | Some enrichments \<Rightarrow> Some (enrichments, None))"

definition GetEnrichments :: "(string \<times> string) list \<Rightarrow> world \<Rightarrow> string \<Rightarrow> error + (string \<rightharpoonup> string)" where
  "GetEnrichments order w link =
     (case getContents w link of
        Inl err \<Rightarrow> Inl (Wrap ''failed to get enrichments'' err)
      | Inr body \<Rightarrow>
          (case extractEnrichments order body of
             None \<Rightarrow> Inl Panic
           | Some (enrichments, Some err) \<Rightarrow> Inl (Wrap ''failed to extract enrichments'' err)
           | Some (enrichments, None) \<Rightarrow> Inr enrichments))"

text \<open>Indexing a Go map: the zero value (the empty string) for a missing key.\<close>

definition map_index :: "(string \<rightharpoonup> string) \<Rightarrow> string \<Rightarrow> string" where
  "map_index m k = (case m k of None \<Rightarrow> [] | Some v \<Rightarrow> v)"

text \<open>
  \<open>Enrich\<close> writes through the pointer to the item: the model returns the item together
  with the values \<open>(applied, err)\<close> of the Go function.
\<close>

definition Enrich :: "(string \<times> string) list \<Rightarrow> world \<Rightarrow> NewsItem \<Rightarrow> NewsItem \<times> nat \<times> error option" where
  "Enrich order w item =
     (case GetEnrichments order w (Link item) of
        Inl err \<Rightarrow> (item, 0, Some (Wrap ''failed to get enrichments'' err))
      | Inr enrichments \<Rightarrow>
          (item\<lparr>Description := map_index enrichments ''description'',
                 Image := map_index enrichments ''image''\<rparr>,
           card (dom enrichments), None))"

section \<open>The storage: the news table\<close>

text \<open>
  The functions of the storage file (\<open>src/unnamed/part_011\<close>), with their SQL statements
  carried out on a model of the table. The database is the table \<open>news\<close> of the migration (\<open>id SERIAL PRIMARY KEY\<close>,
  \<open>link ... UNIQUE\<close>, \<open>description\<close> and \<open>image\<close> defaulting to the empty string): its rows
  in insertion order and the last value of the id sequence. \<open>faults\<close> holds what the
  environment has in store for the coming calls: \<open>Some msg\<close> makes the next call fail in
  the driver (connection lost, deadline exceeded) and leaves the table as it is.
\<close>

record db =
  news :: "NewsItem list"
  serial :: goint
  faults :: "string option list"

definition next_fault :: "db \<Rightarrow> string option \<times> db" where
  "next_fault d = (case faults d of [] \<Rightarrow> (None, d) | f # fs \<Rightarrow> (f, d\<lparr>faults := fs\<rparr>))"

text \<open>
  \<open>CreateNewsItem\<close> returns the database, the item (its \<open>ID\<close> is set through the
  pointer on success) and the error. The pointer is never nil where the service calls
  it. The insert draws the next id from the sequence
  before the uniqueness of the link is checked; a violation is the driver's error
  \<open>23505\<close>, which the function turns into \<open>ErrAlreadyExists\<close>.
\<close>

definition CreateNewsItem :: "db \<Rightarrow> NewsItem \<Rightarrow> db \<times> NewsItem \<times> error option" where
  "CreateNewsItem d item =
     (if Title item = [] \<or> Link item = [] then (d, item, Some ErrItemEmpty)
      else case next_fault d of
             (Some msg, d1) \<Rightarrow> (d1, item, Some (External msg))
           | (None, d1) \<Rightarrow>
               let id = serial d1 + 1; d2 = d1\<lparr>serial := id\<rparr>
               in if Link item \<in> set (map Link (news d2)) then (d2, item, Some ErrAlreadyExists)
                  else (d2\<lparr>news := news d2 @
                              [\<lparr>ID = id, Title = Title item, Link = Link item,
                                Published = Published item, Description = [], Image = []\<rparr>]\<rparr>,
                        item\<lparr>ID := id\<rparr>, None))"

definition GetNewsItem :: "db \<Rightarrow> string \<Rightarrow> db \<times> (error + NewsItem)" where
  "GetNewsItem d link =
     (case next_fault d of
        (Some msg, d1) \<Rightarrow> (d1, Inl (External msg))
      | (None, d1) \<Rightarrow>
          (case find (\<lambda>r. Link r = link) (news d1) of
             None \<Rightarrow> (d1, Inl ErrNotFound)
           | Some item \<Rightarrow> (d1, Inr item)))"

text \<open>
  \<open>SaveNewsItem\<close> updates the rows with the item's id; no such row is \<open>ErrNotFound\<close>. An
  update that would give two rows the same link fails in the database.
\<close>

definition SaveNewsItem :: "db \<Rightarrow> NewsItem \<Rightarrow> db \<times> error option" where
  "SaveNewsItem d item =
     (case next_fault d of
        (Some msg, d1) \<Rightarrow> (d1, Some (External msg))
      | (None, d1) \<Rightarrow>
          if filter (\<lambda>r. ID r = ID item) (news d1) = [] then (d1, Some ErrNotFound)
          else if filter (\<lambda>r. ID r \<noteq> ID item \<and> Link r = Link item) (news d1) \<noteq> []
          then (d1, Some (External ''23505''))
          else (d1\<lparr>news := map (\<lambda>r. if ID r = ID item
                                      then r\<lparr>Title := Title item, Link := Link item,
                                             Description := Description item,
                                             Image := Image item\<rparr>
                                      else r) (news d1)\<rparr>, None))"

section \<open>The queue\<close>

text \<open>
  \<open>Mq\<close> of the queue file (the last document of \<open>src/unnamed/part_000\<close>): the name of
  the queue and its AMQP channel. The channel is the environment of \<open>Publish\<close>: \<open>sent\<close>
  holds every message handed to the channel's \<open>Publish\<close>, in order; \<open>outcomes\<close> is what
  the broker has in store for the coming calls (\<open>Some msg\<close>: the call fails with that
  error); \<open>queued\<close> holds the messages the broker accepted.
\<close>

record message =
  exchange :: string
  routing_key :: string
  ContentType :: string
  Body_amqp :: string

record mq =
  name :: string
  sent :: "message list"
  queued :: "message list"
  outcomes :: "string option list"

text \<open>
  \<open>Publish\<close> hands the message to the channel (default exchange, the queue's name as
  routing key, content type \<open>text/plain\<close>) and wraps the channel's error.
\<close>

definition Publish :: "mq \<Rightarrow> string \<Rightarrow> mq \<times> error option" where
  "Publish q msg =
     (let m = \<lparr>exchange = [], routing_key = name q, ContentType = ''text/plain'',
               Body_amqp = msg\<rparr>;
          q1 = q\<lparr>sent := sent q @ [m]\<rparr>
      in case outcomes q1 of
           Some err # rest \<Rightarrow>
             (q1\<lparr>outcomes := rest\<rparr>,
              Some (Wrap ''[ERROR] failed to publish a message'' (External err)))
         | None # rest \<Rightarrow> (q1\<lparr>outcomes := rest, queued := queued q1 @ [m]\<rparr>, None)
         | [] \<Rightarrow> (q1\<lparr>queued := queued q1 @ [m]\<rparr>, None))"

text \<open>The payloads that have been handed to the channel, in order.\<close>

definition published :: "mq \<Rightarrow> string list" where
  "published q = map Body_amqp (sent q)"

section \<open>The service: the parsing job\<close>

text \<open>
  \<open>ParsingJob\<close> of the service file, in its current revision (\<open>src/unnamed/part_004\<close>,
  the one with \<open>EnrichNewsItem\<close>) and in the earlier one (\<open>src/service.go\<close>). The state of one run of \<open>ParsingJob\<close>: the retry counter, the database and the queue
  of the service, the counters of the current cycle, and the results of the calls to
  \<open>GetNews\<close> so far, the most recent first (\<open>True\<close>: items were returned).
\<close>

record job =
  retry :: int
  storage :: db
  queue :: mq
  saved :: nat
  skipped :: nat
  fetched :: "bool list"

definition limit_retry :: int where
  "limit_retry = 3"

text \<open>
  The loop over the parsed items (``Saving items to DB''). A failed create of either
  kind goes on with the next item; only a successful create is counted as saved and
  published. The error of \<open>Publish\<close> is logged and dropped.
\<close>

fun save_items :: "job \<Rightarrow> NewsItem list \<Rightarrow> job" where
  "save_items j [] = j"
| "save_items j (item # items) =
     (case CreateNewsItem (storage j) item of
        (d, item', Some err) \<Rightarrow>
          if errors_Is err ErrAlreadyExists
          then save_items (j\<lparr>storage := d, skipped := skipped j + 1\<rparr>) items
          else save_items (j\<lparr>storage := d\<rparr>) items
      | (d, item', None) \<Rightarrow>
          let (q, err) = Publish (queue j) (Link item')
          in save_items (j\<lparr>storage := d, saved := saved j + 1, queue := q\<rparr>) items)"

text \<open>
  One input per iteration of the outer loop: the network as it is when the feed is
  fetched, and which case of the \<open>select\<close> that ends the iteration fires
  (\<open>cancelled\<close>: \<open>ctx.Done()\<close>, otherwise the timer).
\<close>

record tick =
  network :: world
  cancelled :: bool

datatype status = Running | Exited

text \<open>
  \<open>ParsingJob_loop\<close> is the \<open>for\<close> loop of \<open>ParsingJob\<close> as it stands in the current
  revision: on a failure the counter is compared
  with the limit first and incremented afterwards. \<open>Running\<close> is a loop that has used up
  the inputs given and is still going.
\<close>

fun ParsingJob_loop :: "string \<Rightarrow> job \<Rightarrow> tick list \<Rightarrow> status \<times> job" where
  "ParsingJob_loop rssUrl j [] = (Running, j)"
| "ParsingJob_loop rssUrl j (t # ts) =
     (case GetNews (network t) rssUrl of
        Inl err \<Rightarrow>
          let j1 = j\<lparr>fetched := False # fetched j\<rparr>
          in if retry j1 > limit_retry then (Exited, j1)
             else let j2 = j1\<lparr>retry := retry j1 + 1\<rparr>
                  in if cancelled t then (Exited, j2) else ParsingJob_loop rssUrl j2 ts
      | Inr items \<Rightarrow>
          let j1 = j\<lparr>fetched := True # fetched j, retry := 0\<rparr>;
              j2 = save_items (j1\<lparr>saved := 0, skipped := 0\<rparr>) items
          in if cancelled t then (Exited, j2) else ParsingJob_loop rssUrl j2 ts)"

definition start :: "db \<Rightarrow> mq \<Rightarrow> job" where
  "start d q = \<lparr>retry = 0, storage = d, queue = q, saved = 0, skipped = 0, fetched = []\<rparr>"

definition ParsingJob :: "string \<Rightarrow> db \<Rightarrow> mq \<Rightarrow> tick list \<Rightarrow> status \<times> job" where
  "ParsingJob rssUrl d q ts = ParsingJob_loop rssUrl (start d q) ts"

text \<open>
  The earlier revision of the loop (\<open>src/service.go\<close>, before \<open>EnrichNewsItem\<close> was
  split off): the counter is incremented first and compared with the limit afterwards.
  Its loop over the items is the same, except that it does not look at the result of
  \<open>Publish\<close>.
\<close>

fun ParsingJob_loop_earlier :: "string \<Rightarrow> job \<Rightarrow> tick list \<Rightarrow> status \<times> job" where
  "ParsingJob_loop_earlier rssUrl j [] = (Running, j)"
| "ParsingJob_loop_earlier rssUrl j (t # ts) =
     (case GetNews (network t) rssUrl of
        Inl err \<Rightarrow>
          let j1 = j\<lparr>fetched := False # fetched j, retry := retry j + 1\<rparr>
          in if retry j1 > limit_retry then (Exited, j1)
             else if cancelled t then (Exited, j1) else ParsingJob_loop_earlier rssUrl j1 ts
      | Inr items \<Rightarrow>
          let j1 = j\<lparr>fetched := True # fetched j, retry := 0\<rparr>;
              j2 = save_items (j1\<lparr>saved := 0, skipped := 0\<rparr>) items
          in if cancelled t then (Exited, j2) else ParsingJob_loop_earlier rssUrl j2 ts)"

definition ParsingJob_earlier :: "string \<Rightarrow> db \<Rightarrow> mq \<Rightarrow> tick list \<Rightarrow> status \<times> job" where
  "ParsingJob_earlier rssUrl d q ts = ParsingJob_loop_earlier rssUrl (start d q) ts"

text \<open>Whether \<open>GetNews\<close> returns items on the network of an input.\<close>

definition fetch_ok :: "string \<Rightarrow> tick \<Rightarrow> bool" where
  "fetch_ok rssUrl t = (case GetNews (network t) rssUrl of Inl err \<Rightarrow> False | Inr items \<Rightarrow> True)"

text \<open>
  On a list of results, the most recent first: the number of consecutive failures up to
  now, and the longest run of consecutive failures.
\<close>

fun leading_failures :: "bool list \<Rightarrow> nat" where
  "leading_failures [] = 0"
| "leading_failures (True # bs) = 0"
| "leading_failures (False # bs) = Suc (leading_failures bs)"

fun max_failures :: "bool list \<Rightarrow> nat" where
  "max_failures [] = 0"
| "max_failures (b # bs) = max (leading_failures (b # bs)) (max_failures bs)"

section \<open>The service: the enrichment step\<close>

text \<open>\<open>EnrichNewsItem\<close>: what the worker does with one link taken from the queue.\<close>

definition EnrichNewsItem :: "(string \<times> string) list \<Rightarrow> world \<Rightarrow> db \<Rightarrow> string \<Rightarrow> db \<times> error option" where
  "EnrichNewsItem order w d link =
     (case GetNewsItem d link of
        (d1, Inl err) \<Rightarrow> (d1, Some (Wrap ''failed to get item from DB'' err))
      | (d1, Inr newsItem) \<Rightarrow>
          (case Enrich order w newsItem of
             (newsItem', applied, Some err) \<Rightarrow> (d1, Some (Wrap ''failed to enrich news'' err))
           | (newsItem', applied, None) \<Rightarrow>
               (case SaveNewsItem d1 newsItem' of
                  (d2, Some err) \<Rightarrow> (d2, Some (Wrap ''failed to save item'' err))
                | (d2, None) \<Rightarrow> (d2, None))))"

section \<open>Auxiliary notions for the proofs\<close>

text \<open>The representable value nearest to a positive \<open>x\<close> in the normal range.\<close>

definition nearest :: "rat \<Rightarrow> rat" where
  "nearest x = of_int (round_half_even (x / 2 powi (ilog2 x - 52))) * 2 powi (ilog2 x - 52)"

text \<open>The number of groups of a pattern.\<close>

fun ncaps :: "atom list \<Rightarrow> nat" where
  "ncaps [] = 0"
| "ncaps (CapNotPlus c # as) = Suc (ncaps as)"
| "ncaps (a # as) = ncaps as"

text \<open>The two patterns of \<open>enrichmentTable\<close>, compiled.\<close>

definition description_re :: "atom list" where
  \<open>description_re =
     map (Lit True) ''<meta'' @ [NotPlus CHR ''>''] @ map (Lit True) ''name="description"''
     @ [NotPlus CHR ''>''] @ map (Lit True) ''content="''
     @ [CapNotPlus CHR 0x22, Lit True CHR 0x22]\<close>

definition image_re :: "atom list" where
  \<open>image_re =
     map (Lit True) ''<meta'' @ [NotPlus CHR ''>''] @ map (Lit True) ''property="og:image"''
     @ [NotPlus CHR ''>''] @ map (Lit True) ''content="''
     @ [CapNotPlus CHR 0x22, Lit True CHR 0x22]\<close>

text \<open>The text of the first group of the leftmost match, if there is a match.\<close>

definition submatch :: "atom list \<Rightarrow> string \<Rightarrow> string option" where
  "submatch re html =
     (let matches = FindStringSubmatch re html
      in if length matches > 1 then Some (matches ! 1) else None)"

definition extracted :: "string \<Rightarrow> string \<rightharpoonup> string" where
  "extracted html =
     (\<lambda>k. if k = ''description'' then submatch description_re html
          else if k = ''image'' then submatch image_re html else None)"

text \<open>
  The invariant of the loop of \<open>ParsingJob\<close>: the counter is the current run of failures,
  and no run of failures so far is longer than 4. For the earlier revision the counter
  is at most 3 and no run is longer than 4.
\<close>

definition retry_inv :: "job \<Rightarrow> bool" where
  "retry_inv j =
     (retry j = int (leading_failures (fetched j)) \<and> max_failures (fetched j) \<le> 4)"

definition retry_inv_earlier :: "job \<Rightarrow> bool" where
  "retry_inv_earlier j =
     (retry j = int (leading_failures (fetched j)) \<and> retry j \<le> 3 \<and> max_failures (fetched j) \<le> 4)"

section \<open>Concrete inputs\<close>

text \<open>A network that answers every request with the given status and body.\<close>

definition answering :: "int \<Rightarrow> string \<Rightarrow> world" where
  "answering code body =
     \<lparr>NewRequest = (\<lambda>url. None),
      Do = (\<lambda>url. Inr \<lparr>StatusCode = code, Body = Inr body\<rparr>),
      ParseString = (\<lambda>feedBody. Inl (External ''not a feed''))\<rparr>"

text \<open>A network on which every request fails in the transport.\<close>

definition unreachable :: world where
  "unreachable =
     \<lparr>NewRequest = (\<lambda>url. None),
      Do = (\<lambda>url. Inl (External ''connection refused'')),
      ParseString = (\<lambda>feedBody. Inl (External ''not a feed''))\<rparr>"

text \<open>The page of the case ``both'' of \<open>Test_ExtractEnrichments\<close>, on one line.\<close>

definition both_page :: string where
  \<open>both_page = ''<html><meta name="description" content="test description"><meta property="og:image" content="http://example.com/image.jpg"></html>''\<close>

text \<open>What a result of \<open>extractEnrichments\<close> holds under the two keys, and its error.\<close>

definition fields :: "((string \<rightharpoonup> string) \<times> error option) option \<Rightarrow> (string option \<times> string option \<times> error option) option" where
  "fields res = map_option (\<lambda>(m, e). (m ''description'', m ''image'', e)) res"

text \<open>A stored item that has been enriched before, alone in its table.\<close>

definition stored_item :: NewsItem where
  "stored_item =
     \<lparr>ID = 1, Title = ''title'', Link = ''http://news/1'', Published = 0,
      Description = ''old description'', Image = ''http://img/old.jpg''\<rparr>"

definition stale_db :: db where
  "stale_db = \<lparr>news = [stored_item], serial = 1, faults = []\<rparr>"

text \<open>An empty table, an empty queue, and an iteration on an unreachable network.\<close>

definition empty_db :: db where
  "empty_db = \<lparr>news = [], serial = 0, faults = []\<rparr>"

definition empty_mq :: mq where
  "empty_mq = \<lparr>name = ''news'', sent = [], queued = [], outcomes = []\<rparr>"

definition down :: tick where
  "down = \<lparr>network = unreachable, cancelled = False\<rparr>"

text \<open>Three candidates, the third with the link of the first.\<close>

definition candidates :: "NewsItem list" where
  "candidates =
     [new_item ''first'' ''http://news/a'', new_item ''second'' ''http://news/b'',
      new_item ''first again'' ''http://news/a'']"

section \<open>Filters\<close>

lemma sint_MaxInt: "sint MaxInt = 9223372036854775807"
  by (simp add: MaxInt_def)

lemma sint_le_MaxInt: "sint (x :: goint) \<le> sint MaxInt"
  using sint_lt [of x] by (simp add: sint_MaxInt)

lemma go_min_MaxInt: "go_min x MaxInt = x"
  using sint_le_MaxInt [of x] by (simp add: go_min_def)

lemma offset_word: "offset f = (Page f - 1) * PageSize f"
  by (simp add: offset_def go_min_MaxInt)


lemma sint_offset:
  "sint (offset f) = signed_take_bit 63 ((sint (Page f) - 1) * sint (PageSize f))"
proof -
  have "sint (offset f) = signed_take_bit 63 (sint (Page f - 1) * sint (PageSize f))"
    by (simp add: offset_word sint_word_ariths)
  also have "sint (Page f - 1) = signed_take_bit 63 (sint (Page f) - 1)"
    by (simp add: sint_word_ariths)
  also have "signed_take_bit 63 (signed_take_bit 63 (sint (Page f) - 1) * sint (PageSize f))
      = signed_take_bit 63 ((sint (Page f) - 1) * sint (PageSize f))"
    by (metis signed_take_bit_mult signed_take_bit_signed_take_bit min.idem)
  finally show ?thesis .
qed

lemma limit_is_PageSize: "limit f = PageSize f"
  by (simp add: limit_def)

lemma offset_exact:
  assumes "- (2 ^ 63) \<le> (sint (Page f) - 1) * sint (PageSize f)"
    and "(sint (Page f) - 1) * sint (PageSize f) < 2 ^ 63"
  shows "sint (offset f) = (sint (Page f) - 1) * sint (PageSize f)"
  using assms by (simp add: sint_offset signed_take_bit_int_eq_self)

lemma offset_le_MaxInt: "sint (offset f) \<le> sint MaxInt"
  by (rule sint_le_MaxInt)

text \<open>
  C1, as stated, at \<open>Filters{Page: 0, PageSize: 10}\<close>: only the page is below 1, and only
  the page is replaced; the result is page 1 with size 10, not the default filters.
\<close>

theorem validate_partial_counterexample:
  "sint (Page \<lparr>Page = 0, PageSize = 10\<rparr>) < 1
   \<and> validate \<lparr>Page = 0, PageSize = 10\<rparr> defaultFilters = \<lparr>Page = 1, PageSize = 10\<rparr>
   \<and> validate \<lparr>Page = 0, PageSize = 10\<rparr> defaultFilters \<noteq> defaultFilters"
  by (simp add: validate_def defaultFilters_def)

text \<open>
  C1 (amended): normalization with the default filters treats the two fields
  independently. A page below 1 becomes 1 and any other page is kept; a page size below 1
  becomes 5 and any other page size is kept. The result is the default filters
  (page 1, size 5) when both fields are below 1.
\<close>

theorem validate_fieldwise:
  "Page (validate f defaultFilters) = (if sint (Page f) < 1 then 1 else Page f)
   \<and> PageSize (validate f defaultFilters) = (if sint (PageSize f) < 1 then 5 else PageSize f)
   \<and> (sint (Page f) < 1 \<and> sint (PageSize f) < 1 \<longrightarrow> validate f defaultFilters = defaultFilters)"
  by (simp add: validate_def defaultFilters_def)

theorem validate_fieldwise_witness:
  "sint (Page \<lparr>Page = 0, PageSize = - 3\<rparr>) < 1 \<and> sint (PageSize \<lparr>Page = 0, PageSize = - 3\<rparr>) < 1
   \<and> validate \<lparr>Page = 0, PageSize = - 3\<rparr> defaultFilters = defaultFilters
   \<and> Page (validate \<lparr>Page = 7, PageSize = 0\<rparr> defaultFilters) = 7
   \<and> PageSize (validate \<lparr>Page = 7, PageSize = 0\<rparr> defaultFilters) = 5"
  using validate_fieldwise [of "\<lparr>Page = 0, PageSize = - 3\<rparr>"]
    validate_fieldwise [of "\<lparr>Page = 7, PageSize = 0\<rparr>"]
  by simp

text \<open>
  C4, at \<open>Filters{Page: 4611686018427387905, PageSize: 2}\<close> (which normalization leaves
  as it is, both fields being at least 1): the product \<open>(Page - 1) * PageSize\<close> is
  \<open>2 ^ 63\<close>, one more than the largest int. The multiplication has already wrapped
  around when \<open>min(offset, math.MaxInt)\<close> runs, so the clamp never applies: the offset is
  the most negative int, not \<open>math.MaxInt\<close>.
\<close>

theorem offset_overflow_not_clamped:
  "validate \<lparr>Page = 4611686018427387905, PageSize = 2\<rparr> defaultFilters
     = \<lparr>Page = 4611686018427387905, PageSize = 2\<rparr>
   \<and> sint (offset \<lparr>Page = 4611686018427387905, PageSize = 2\<rparr>) = - 9223372036854775808
   \<and> offset \<lparr>Page = 4611686018427387905, PageSize = 2\<rparr> \<noteq> MaxInt"
  by (simp add: validate_def defaultFilters_def offset_word MaxInt_def)

section \<open>Rounding to float64\<close>

lemma two_powi_pos: "0 < (2::rat) powi n"
  by simp

lemma two_powi_mono: "m \<le> n \<Longrightarrow> (2::rat) powi m \<le> 2 powi n"
  by (rule power_int_increasing) simp_all

lemma two_powi_strict_mono: "m < n \<Longrightarrow> (2::rat) powi m < 2 powi n"
  by (rule power_int_strict_increasing) simp_all

lemma two_powi_le_D: "(2::rat) powi m < 2 powi n \<Longrightarrow> m < n"
  by (metis two_powi_mono not_less)

lemma two_powi_div: "(2::rat) powi a / 2 powi b = 2 powi (a - b)"
  by (simp add: power_int_diff)

lemma two_powi_mult: "(2::rat) powi a * 2 powi b = 2 powi (a + b)"
  by (simp add: power_int_add)

lemma bitlen_rat_bounds:
  assumes "0 < p"
  shows "(2::rat) powi (bitlen p - 1) \<le> of_int p" and "of_int p < (2::rat) powi (bitlen p)"
proof -
  from bitlen_bounds [OF assms] have lo: "2 ^ nat (bitlen p - 1) \<le> p" and hi: "p < 2 ^ nat (bitlen p)"
    by auto
  have b1: "1 \<le> bitlen p"
    using assms by (simp add: bitlen_alt_def)
  have "(2::rat) powi (bitlen p - 1) = 2 ^ nat (bitlen p - 1)"
    using b1 by (simp add: power_int_nonneg_exp)
  also have "\<dots> = of_int (2 ^ nat (bitlen p - 1))" by simp
  also have "\<dots> \<le> of_int p" using lo by (simp only: of_int_le_iff)
  finally show "(2::rat) powi (bitlen p - 1) \<le> of_int p" .
  have "(of_int p :: rat) < of_int (2 ^ nat (bitlen p))"
    using hi by (simp only: of_int_less_iff)
  also have "\<dots> = 2 ^ nat (bitlen p)" by simp
  also have "\<dots> = 2 powi (bitlen p)"
    using b1 by (simp add: power_int_nonneg_exp)
  finally show "of_int p < (2::rat) powi (bitlen p)" .
qed

lemma ilog2_bounds:
  assumes "0 < x"
  shows "2 powi (ilog2 x) \<le> x" and "x < 2 powi (ilog2 x + 1)"
proof -
  obtain p q where pq: "quotient_of x = (p, q)" by (cases "quotient_of x")
  then have q: "0 < q" and x: "x = of_int p / of_int q"
    by (auto simp: quotient_of_denom_pos quotient_of_div)
  with assms have p: "0 < p"
    by (simp add: zero_less_divide_iff)
  define d where "d = bitlen p - bitlen q"
  have il: "ilog2 x = (if 2 powi d \<le> x then d else d - 1)"
    by (simp add: ilog2_def pq d_def)
  have qr: "0 < (of_int q :: rat)" using q by simp
  have "x < 2 powi (bitlen p) / 2 powi (bitlen q - 1)"
    unfolding x
    using bitlen_rat_bounds [OF p] bitlen_rat_bounds [OF q] qr p
    by (intro frac_less) (auto intro: less_imp_le)
  also have "\<dots> = 2 powi (bitlen p - (bitlen q - 1))"
    by (rule two_powi_div)
  also have "bitlen p - (bitlen q - 1) = d + 1"
    by (simp add: d_def)
  finally have hi: "x < 2 powi (d + 1)" .
  have "d - 1 = bitlen p - 1 - bitlen q"
    by (simp add: d_def)
  then have "(2::rat) powi (d - 1) = 2 powi (bitlen p - 1) / 2 powi (bitlen q)"
    by (simp only: two_powi_div)
  also have "\<dots> < x"
    unfolding x
    using bitlen_rat_bounds [OF p] bitlen_rat_bounds [OF q] qr p
    by (intro frac_less2) (auto intro: less_imp_le)
  finally have lo: "2 powi (d - 1) < x" .
  show "2 powi (ilog2 x) \<le> x"
    using lo by (auto simp: il intro: less_imp_le)
  show "x < 2 powi (ilog2 x + 1)"
    using hi by (auto simp: il not_le)
qed

lemma ilog2_eq:
  assumes "0 < x" and "2 powi e \<le> x" and "x < 2 powi (e + 1)"
  shows "ilog2 x = e"
proof -
  from ilog2_bounds [OF assms(1)] assms(2,3)
  have "(2::rat) powi (ilog2 x) < 2 powi (e + 1)" and "(2::rat) powi e < 2 powi (ilog2 x + 1)"
    by auto
  then have "ilog2 x < e + 1" and "e < ilog2 x + 1"
    by (auto dest: two_powi_le_D)
  then show ?thesis by simp
qed

lemma rhe_floor: "\<lfloor>y\<rfloor> \<le> round_half_even y \<and> round_half_even y \<le> \<lfloor>y\<rfloor> + 1"
  by (simp add: round_half_even_def Let_def)

lemma rhe_ge_int:
  assumes "of_int n \<le> y"
  shows "n \<le> round_half_even y"
proof -
  from assms have "n \<le> \<lfloor>y\<rfloor>" by (simp add: le_floor_iff)
  with rhe_floor [of y] show ?thesis by simp
qed

lemma rhe_of_int: "round_half_even (of_int n) = n"
  by (simp add: round_half_even_def)

lemma rhe_le_int:
  assumes "y \<le> of_int n"
  shows "round_half_even y \<le> n"
proof (cases "y = of_int n")
  case True
  then show ?thesis by (simp add: rhe_of_int)
next
  case False
  with assms have "y < of_int n" by simp
  then have "\<lfloor>y\<rfloor> < n" by (simp add: floor_less_iff)
  with rhe_floor [of y] show ?thesis by simp
qed

lemma rhe_gt_half:
  assumes "of_int n + 1 / 2 < y"
  shows "n + 1 \<le> round_half_even y"
proof (cases "n + 1 \<le> \<lfloor>y\<rfloor>")
  case True
  with rhe_floor [of y] show ?thesis by simp
next
  case False
  moreover from assms have "of_int n \<le> y" by simp
  then have "n \<le> \<lfloor>y\<rfloor>" by (simp add: le_floor_iff)
  ultimately have f: "\<lfloor>y\<rfloor> = n" by simp
  with assms have "1 / 2 < y - of_int \<lfloor>y\<rfloor>" by simp
  then show ?thesis
    using f by (simp add: round_half_even_def Let_def)
qed

text \<open>Rounding a positive value in the normal range.\<close>

lemma round_to_f64_pos:
  assumes "0 < x" and "- 1022 \<le> ilog2 x" and "ilog2 x \<le> 1022"
  shows "round_to_f64 x
     = Finite (of_int (round_half_even (x / 2 powi (ilog2 x - 52))) * 2 powi (ilog2 x - 52))"
    and "of_int (round_half_even (x / 2 powi (ilog2 x - 52))) * 2 powi (ilog2 x - 52) \<le> (2::rat) powi (ilog2 x + 1)"
    and "(2::rat) powi (ilog2 x) \<le> of_int (round_half_even (x / 2 powi (ilog2 x - 52))) * 2 powi (ilog2 x - 52)"
proof -
  define e where "e = ilog2 x"
  define u :: rat where "u = 2 powi (e - 52)"
  define m where "m = round_half_even (x / u)"
  have u: "0 < u" by (simp add: u_def)
  have mx: "max (e - 52) (- 1074) = e - 52"
    using assms(2) by (simp add: e_def)
  from ilog2_bounds [OF assms(1)] have lo: "2 powi e \<le> x" and hi: "x < 2 powi (e + 1)"
    by (simp_all add: e_def)
  have "x / u \<le> 2 powi (e + 1) / u"
    using hi u by (simp add: divide_right_mono)
  also have "\<dots> = 2 powi ((e + 1) - (e - 52))"
    unfolding u_def by (rule two_powi_div)
  also have "\<dots> = of_int (2 ^ 53)" by simp
  finally have "m \<le> 2 ^ 53"
    unfolding m_def by (rule rhe_le_int)
  then have "(of_int m :: rat) \<le> of_int (2 ^ 53)"
    by (simp only: of_int_le_iff)
  then have "of_int m * u \<le> of_int (2 ^ 53) * u"
    using u by (simp add: mult_right_mono)
  also have "of_int (2 ^ 53) * u = 2 powi 53 * 2 powi (e - 52)"
    by (simp add: u_def)
  also have "\<dots> = 2 powi (53 + (e - 52))"
    by (rule two_powi_mult)
  also have "53 + (e - 52) = e + 1" by simp
  finally have up: "of_int m * u \<le> 2 powi (e + 1)" .
  have "(of_int (2 ^ 52) :: rat) = 2 powi (e - (e - 52))" by simp
  also have "\<dots> = 2 powi e / u"
    unfolding u_def by (rule two_powi_div [symmetric])
  also have "\<dots> \<le> x / u"
    using lo u by (simp add: divide_right_mono)
  finally have "2 ^ 52 \<le> m"
    unfolding m_def by (rule rhe_ge_int)
  then have "(of_int (2 ^ 52) :: rat) \<le> of_int m"
    by (simp only: of_int_le_iff)
  then have "of_int (2 ^ 52) * u \<le> of_int m * u"
    using u by (simp add: mult_right_mono)
  moreover have "of_int (2 ^ 52) * u = 2 powi 52 * 2 powi (e - 52)"
    by (simp add: u_def)
  moreover have "2 powi 52 * 2 powi (e - 52) = (2::rat) powi (52 + (e - 52))"
    by (rule two_powi_mult)
  ultimately have down: "2 powi e \<le> of_int m * u" by simp
  have "2 powi (e + 1) \<le> (2::rat) powi 1023"
    using assms(3) by (intro two_powi_mono) (simp add: e_def)
  also have "\<dots> < 2 ^ 1024" by simp
  finally have "of_int m * u < 2 ^ 1024"
    using up by simp
  then have "round_to_f64 x = Finite (of_int m * u)"
    using assms(1) mx by (simp add: round_to_f64_def Let_def e_def [symmetric] u_def m_def)
  then show "round_to_f64 x
     = Finite (of_int (round_half_even (x / 2 powi (ilog2 x - 52))) * 2 powi (ilog2 x - 52))"
    by (simp add: m_def u_def e_def)
  show "of_int (round_half_even (x / 2 powi (ilog2 x - 52))) * 2 powi (ilog2 x - 52) \<le> (2::rat) powi (ilog2 x + 1)"
    using up by (simp add: m_def u_def e_def)
  show "(2::rat) powi (ilog2 x) \<le> of_int (round_half_even (x / 2 powi (ilog2 x - 52))) * 2 powi (ilog2 x - 52)"
    using down by (simp add: m_def u_def e_def)
qed

lemma round_to_f64_nearest:
  assumes "0 < x" and "- 1022 \<le> ilog2 x" and "ilog2 x \<le> 1022"
  shows "round_to_f64 x = Finite (nearest x)"
    and "nearest x \<le> 2 powi (ilog2 x + 1)"
    and "2 powi (ilog2 x) \<le> nearest x"
  using round_to_f64_pos [OF assms] by (simp_all add: nearest_def)

lemma grid_unit:
  assumes "e \<le> 52"
  shows "\<exists>N::int. 0 < N \<and> of_int N * (2::rat) powi (e - 52) = 1"
proof -
  have "of_int (2 ^ nat (52 - e)) * (2::rat) powi (e - 52) = 2 powi (52 - e) * 2 powi (e - 52)"
    using assms by (simp add: power_int_nonneg_exp)
  also have "\<dots> = 2 powi ((52 - e) + (e - 52))"
    by (rule two_powi_mult)
  also have "\<dots> = 1" by simp
  finally show ?thesis
    by (intro exI [of _ "2 ^ nat (52 - e)"]) simp
qed

lemma nearest_ge_int:
  assumes "ilog2 x \<le> 52" and "of_int k \<le> x"
  shows "of_int k \<le> nearest x"
proof -
  define u :: rat where "u = 2 powi (ilog2 x - 52)"
  have u: "0 < u" by (simp add: u_def)
  from grid_unit [OF assms(1)] obtain N :: int where N: "0 < N" "of_int N * u = 1"
    by (auto simp: u_def)
  then have inv: "1 / u = of_int N"
    using u by (simp add: field_simps)
  have "of_int k / u = of_int k * (1 / u)" by simp
  then have "of_int (k * N) = of_int k / u"
    by (simp only: inv of_int_mult)
  also have "\<dots> \<le> x / u"
    using assms(2) u by (simp add: divide_right_mono)
  finally have "k * N \<le> round_half_even (x / u)"
    by (rule rhe_ge_int)
  then have "(of_int (k * N) :: rat) \<le> of_int (round_half_even (x / u))"
    by (simp only: of_int_le_iff)
  then have "of_int (k * N) * u \<le> of_int (round_half_even (x / u)) * u"
    using u by (simp add: mult_right_mono)
  moreover have "of_int (k * N) * u = of_int k"
    using N(2) by (simp add: mult.assoc)
  ultimately have "of_int k \<le> of_int (round_half_even (x / u)) * u"
    by linarith
  then show ?thesis
    by (simp only: nearest_def u_def)
qed

lemma nearest_le_int:
  assumes "ilog2 x \<le> 52" and "x \<le> of_int k"
  shows "nearest x \<le> of_int k"
proof -
  define u :: rat where "u = 2 powi (ilog2 x - 52)"
  have u: "0 < u" by (simp add: u_def)
  from grid_unit [OF assms(1)] obtain N :: int where N: "0 < N" "of_int N * u = 1"
    by (auto simp: u_def)
  then have inv: "1 / u = of_int N"
    using u by (simp add: field_simps)
  have "x / u \<le> of_int k / u"
    using assms(2) u by (simp add: divide_right_mono)
  also have "of_int k / u = of_int k * (1 / u)" by simp
  also have "\<dots> = of_int (k * N)"
    by (simp only: inv of_int_mult)
  finally have "round_half_even (x / u) \<le> k * N"
    by (rule rhe_le_int)
  then have "(of_int (round_half_even (x / u)) :: rat) \<le> of_int (k * N)"
    by (simp only: of_int_le_iff)
  then have "of_int (round_half_even (x / u)) * u \<le> of_int (k * N) * u"
    using u by (simp add: mult_right_mono)
  moreover have "of_int (k * N) * u = of_int k"
    using N(2) by (simp add: mult.assoc)
  ultimately have "of_int (round_half_even (x / u)) * u \<le> of_int k"
    by linarith
  then show ?thesis
    by (simp only: nearest_def u_def)
qed

lemma nearest_gt_int:
  assumes "ilog2 x \<le> 52" and "of_int k + 2 powi (ilog2 x - 53) < x"
  shows "of_int k < nearest x"
proof -
  define u :: rat where "u = 2 powi (ilog2 x - 52)"
  have u: "0 < u" by (simp add: u_def)
  from grid_unit [OF assms(1)] obtain N :: int where N: "0 < N" "of_int N * u = 1"
    by (auto simp: u_def)
  then have inv: "1 / u = of_int N"
    using u by (simp add: field_simps)
  have "(2::rat) powi (ilog2 x - 53) * 2 powi 1 = 2 powi (ilog2 x - 53 + 1)"
    by (rule two_powi_mult)
  then have half: "2 powi (ilog2 x - 53) = u / 2"
    by (simp add: u_def)
  have "of_int (k * N) + 1 / 2 = (of_int k + u / 2) / u"
    using inv u by (simp add: field_simps)
  also have "\<dots> < x / u"
    using assms(2) u by (simp add: half divide_strict_right_mono)
  finally have "k * N + 1 \<le> round_half_even (x / u)"
    by (rule rhe_gt_half)
  then have "(of_int (k * N + 1) :: rat) \<le> of_int (round_half_even (x / u))"
    by (simp only: of_int_le_iff)
  then have "of_int (k * N + 1) * u \<le> of_int (round_half_even (x / u)) * u"
    using u by (simp add: mult_right_mono)
  moreover have "of_int (k * N + 1) * u = of_int k * (of_int N * u) + u"
    by (simp add: algebra_simps)
  ultimately have "of_int k + u \<le> of_int (round_half_even (x / u)) * u"
    by (simp only: N(2) mult_1_right)
  with u have "of_int k < of_int (round_half_even (x / u)) * u"
    by linarith
  then show ?thesis
    by (simp only: nearest_def u_def)
qed

lemma ilog2_ge: "0 < x \<Longrightarrow> 2 powi n \<le> x \<Longrightarrow> n \<le> ilog2 x"
  using ilog2_bounds(2) [of x] two_powi_le_D [of n "ilog2 x + 1"] by simp

lemma ilog2_lt: "0 < x \<Longrightarrow> x < 2 powi n \<Longrightarrow> ilog2 x < n"
  using ilog2_bounds(1) [of x] two_powi_le_D [of "ilog2 x" n] by simp

lemma round_to_f64_int_exact:
  assumes "1 \<le> a" and "a < 2 ^ 53"
  shows "round_to_f64 (of_int a) = Finite (of_int a)"
proof -
  let ?x = "of_int a :: rat"
  have pos: "0 < ?x" using assms(1) by simp
  have "2 powi 0 \<le> ?x" using assms(1) by simp
  with pos have lo: "0 \<le> ilog2 ?x" by (rule ilog2_ge)
  have "?x < of_int (2 ^ 53)" using assms(2) by (simp only: of_int_less_iff)
  then have "?x < 2 powi 53" by simp
  with pos have hi: "ilog2 ?x < 53" by (rule ilog2_lt)
  from lo hi have r: "round_to_f64 ?x = Finite (nearest ?x)"
    by (intro round_to_f64_nearest(1) [OF pos]) simp_all
  from hi have "?x \<le> nearest ?x" "nearest ?x \<le> ?x"
    by (simp_all add: nearest_ge_int nearest_le_int)
  with r show ?thesis by simp
qed

lemma round_to_f64_int_big:
  assumes "2 ^ 53 \<le> b" and "b < 2 ^ 63"
  shows "\<exists>b'. round_to_f64 (of_int b) = Finite b' \<and> 2 ^ 53 \<le> b' \<and> b' \<le> 2 ^ 63"
proof -
  let ?x = "of_int b :: rat"
  have "(of_int (2 ^ 53) :: rat) \<le> ?x" using assms(1) by (simp only: of_int_le_iff)
  then have x53: "2 powi 53 \<le> ?x" by simp
  then have pos: "0 < ?x" using two_powi_pos [of 53] by linarith
  from pos x53 have lo: "53 \<le> ilog2 ?x" by (rule ilog2_ge)
  have "?x < of_int (2 ^ 63)" using assms(2) by (simp only: of_int_less_iff)
  then have "?x < 2 powi 63" by simp
  with pos have hi: "ilog2 ?x < 63" by (rule ilog2_lt)
  from lo hi have r: "round_to_f64 ?x = Finite (nearest ?x)"
    and up: "nearest ?x \<le> 2 powi (ilog2 ?x + 1)"
    and down: "2 powi (ilog2 ?x) \<le> nearest ?x"
    by (simp_all add: round_to_f64_nearest [OF pos])
  from lo have "(2::rat) powi 53 \<le> 2 powi (ilog2 ?x)" by (rule two_powi_mono)
  with down have 1: "2 ^ 53 \<le> nearest ?x" by simp
  from hi have "(2::rat) powi (ilog2 ?x + 1) \<le> 2 powi 63" by (intro two_powi_mono) simp
  with up have 2: "nearest ?x \<le> 2 ^ 63" by simp
  from r 1 2 show ?thesis by blast
qed

lemma quotient_ceiling:
  assumes "1 \<le> a" and "a < 2 ^ 53" and "1 \<le> b" and "b < 2 ^ 53"
  shows "\<exists>y. round_to_f64 (of_int a / of_int b) = Finite y
     \<and> \<lceil>y\<rceil> = \<lceil>of_int a / of_int b :: rat\<rceil>"
proof -
  let ?x = "of_int a / of_int b :: rat"
  define c where "c = \<lceil>?x\<rceil>"
  have bpos: "0 < (of_int b :: rat)" using assms(3) by simp
  have pos: "0 < ?x" using assms(1,3) by simp
  have "?x \<le> of_int a"
    using assms(1,3) by (simp add: divide_le_eq mult_le_cancel_left1 bpos)
  also have "(of_int a :: rat) < of_int (2 ^ 53)" using assms(2) by (simp only: of_int_less_iff)
  finally have x53: "?x < 2 powi 53" by simp
  with pos have hi: "ilog2 ?x < 53" by (rule ilog2_lt)
  have "(of_int b :: rat) < of_int (2 ^ 53)" using assms(4) by (simp only: of_int_less_iff)
  then have b53: "(of_int b :: rat) < 2 ^ 53" by simp
  have "(1::rat) \<le> of_int a" using assms(1) by simp
  then have "1 / of_int b \<le> ?x"
    using bpos by (simp add: divide_right_mono)
  moreover have "(2::rat) powi (- 53) < 1 / of_int b"
    using b53 bpos by (simp add: power_int_minus field_simps)
  ultimately have "2 powi (- 53) \<le> ?x" by linarith
  with pos have lo: "- 53 \<le> ilog2 ?x" by (rule ilog2_ge)
  from lo hi have r: "round_to_f64 ?x = Finite (nearest ?x)"
    by (intro round_to_f64_nearest(1) [OF pos]) simp_all
  have le: "nearest ?x \<le> of_int c"
    using hi by (intro nearest_le_int) (simp_all add: c_def)
  have "\<lceil>nearest ?x\<rceil> = c"
  proof (cases "?x = of_int c")
    case True
    then have "of_int c \<le> nearest ?x"
      using hi by (intro nearest_ge_int) simp_all
    with le have "nearest ?x = of_int c" by simp
    then show ?thesis by simp
  next
    case False
    have "?x \<le> of_int c" by (simp add: c_def)
    with False have "?x < of_int c" by simp
    have "of_int (c - 1) < ?x"
      using ceiling_correct [of ?x] by (simp add: c_def)
    then have "of_int (c - 1) * of_int b < (of_int a :: rat)"
      using bpos by (simp add: pos_less_divide_eq)
    then have "(of_int ((c - 1) * b) :: rat) < of_int a" by simp
    then have "(c - 1) * b < a" by (simp only: of_int_less_iff)
    then have "(c - 1) * b + 1 \<le> a" by simp
    then have "(of_int ((c - 1) * b + 1) :: rat) \<le> of_int a" by (simp only: of_int_le_iff)
    then have "of_int (c - 1) * of_int b + 1 \<le> (of_int a :: rat)" by simp
    then have "(of_int (c - 1) * of_int b + 1) / of_int b \<le> ?x"
      using bpos by (simp add: divide_right_mono)
    then have gap: "of_int (c - 1) + 1 / of_int b \<le> ?x"
      using bpos by (simp add: field_simps)
    have "(2::rat) powi (ilog2 ?x - 53) = 2 powi (ilog2 ?x) / 2 powi 53"
      by (rule two_powi_div [symmetric])
    also have "\<dots> \<le> ?x / 2 powi 53"
      using ilog2_bounds(1) [OF pos] by (simp add: divide_right_mono)
    also have "\<dots> = (of_int a / 2 ^ 53) / of_int b" by simp
    also have "\<dots> < 1 / of_int b"
    proof (rule divide_strict_right_mono [OF _ bpos])
      from \<open>(of_int a :: rat) < of_int (2 ^ 53)\<close> have "(of_int a :: rat) < 2 ^ 53" by simp
      then show "(of_int a :: rat) / 2 ^ 53 < 1" by simp
    qed
    finally have "of_int (c - 1) + 2 powi (ilog2 ?x - 53) < ?x"
      using gap by linarith
    then have "of_int (c - 1) < nearest ?x"
      using hi by (intro nearest_gt_int) simp_all
    with le show ?thesis
      by (intro ceiling_unique) simp_all
  qed
  with r show ?thesis by (simp add: c_def)
qed

lemma quotient_below_one:
  assumes "1 \<le> a" and "a < 2 ^ 53" and "2 ^ 53 \<le> b'" and "b' \<le> 2 ^ 63"
  shows "\<exists>y. round_to_f64 (of_int a / b') = Finite y \<and> \<lceil>y\<rceil> = 1"
proof -
  let ?x = "of_int a / b' :: rat"
  have bpos: "0 < b'" using assms(3) by (rule less_le_trans [rotated]) simp
  have a1: "(1::rat) \<le> of_int a" using assms(1) by simp
  have pos: "0 < ?x" using a1 bpos by simp
  have "(of_int a :: rat) < of_int (2 ^ 53)" using assms(2) by (simp only: of_int_less_iff)
  then have "of_int a < b'" using assms(3) by simp
  then have x1: "?x < 1" using bpos by simp
  then have "?x < 2 powi 0" by simp
  with pos have hi: "ilog2 ?x < 0" by (rule ilog2_lt)
  have "1 / b' \<le> ?x" using a1 bpos by (simp add: divide_right_mono)
  moreover have "(2::rat) powi (- 63) \<le> 1 / b'"
    using assms(4) bpos by (simp add: power_int_minus field_simps)
  ultimately have "2 powi (- 63) \<le> ?x" by linarith
  with pos have lo: "- 63 \<le> ilog2 ?x" by (rule ilog2_ge)
  from lo hi have r: "round_to_f64 ?x = Finite (nearest ?x)"
    and down: "2 powi (ilog2 ?x) \<le> nearest ?x"
    by (simp_all add: round_to_f64_nearest [OF pos])
  have "nearest ?x \<le> of_int 1"
    using hi x1 by (intro nearest_le_int) simp_all
  moreover have "0 < nearest ?x"
    using down two_powi_pos [of "ilog2 ?x"] by linarith
  ultimately have "\<lceil>nearest ?x\<rceil> = 1"
    by (intro ceiling_unique) simp_all
  with r show ?thesis by simp
qed

lemma int_of_f64_of_int:
  "- (2 ^ 63) \<le> c \<Longrightarrow> c < 2 ^ 63 \<Longrightarrow> int_of_f64 (Finite (of_int c)) = Some (word_of_int c)"
  by (simp add: Let_def)

lemma last_page_float:
  assumes "1 \<le> a" and "a < 2 ^ 53" and "1 \<le> b" and "b < 2 ^ 63"
  shows "int_of_f64 (Ceil (fdiv (round_to_f64 (of_int a)) (round_to_f64 (of_int b))))
     = Some (word_of_int \<lceil>of_int a / of_int b :: rat\<rceil>)"
proof -
  let ?x = "of_int a / of_int b :: rat"
  have fa: "round_to_f64 (of_int a) = Finite (of_int a)"
    using assms(1,2) by (rule round_to_f64_int_exact)
  have bpos: "0 < (of_int b :: rat)" using assms(3) by simp
  have a1: "(1::rat) \<le> of_int a" using assms(1) by simp
  have "0 < ?x" using assms(1,3) by simp
  then have c1: "1 \<le> \<lceil>?x\<rceil>" by simp
  have "?x \<le> of_int a"
    using assms(1,3) by (simp add: divide_le_eq mult_le_cancel_left1 bpos)
  then have "\<lceil>?x\<rceil> \<le> a" by (simp add: ceiling_le_iff)
  moreover have "(2::int) ^ 53 < 2 ^ 63" by simp
  ultimately have c2: "\<lceil>?x\<rceil> < 2 ^ 63" using assms(2) by linarith
  show ?thesis
  proof (cases "b < 2 ^ 53")
    case True
    then have fb: "round_to_f64 (of_int b) = Finite (of_int b)"
      using assms(3) by (intro round_to_f64_int_exact)
    from quotient_ceiling [OF assms(1,2,3) True] obtain y where
      y: "round_to_f64 ?x = Finite y" "\<lceil>y\<rceil> = \<lceil>?x\<rceil>"
      by blast
    have "fdiv (Finite (of_int a)) (Finite (of_int b)) = Finite y"
      using assms(3) y(1) by simp
    then have "int_of_f64 (Ceil (fdiv (round_to_f64 (of_int a)) (round_to_f64 (of_int b))))
        = int_of_f64 (Finite (of_int \<lceil>?x\<rceil>))"
      using y(2) by (simp only: fa fb Ceil.simps)
    also have "\<dots> = Some (word_of_int \<lceil>?x\<rceil>)"
      using c1 c2 by (intro int_of_f64_of_int) simp_all
    finally show ?thesis .
  next
    case False
    then have big: "2 ^ 53 \<le> b" by simp
    from round_to_f64_int_big [OF big assms(4)] obtain b' where
      b': "round_to_f64 (of_int b) = Finite b'" "2 ^ 53 \<le> b'" "b' \<le> 2 ^ 63"
      by blast
    from quotient_below_one [OF assms(1,2) b'(2,3)] obtain y where
      y: "round_to_f64 (of_int a / b') = Finite y" "\<lceil>y\<rceil> = 1"
      by blast
    have "b' \<noteq> 0" using b'(2) by auto
    then have "fdiv (Finite (of_int a)) (Finite b') = Finite y"
      using y(1) by simp
    then have 1: "int_of_f64 (Ceil (fdiv (round_to_f64 (of_int a)) (round_to_f64 (of_int b))))
        = int_of_f64 (Finite (of_int 1))"
      using y(2) by (simp only: fa b'(1) Ceil.simps)
    have "a < b" using assms(2) big by simp
    then have "(of_int a :: rat) < of_int b" by (simp only: of_int_less_iff)
    then have "?x \<le> 1" using bpos by simp
    then have "\<lceil>?x\<rceil> \<le> 1" by (simp add: ceiling_le_iff)
    with c1 have "\<lceil>?x\<rceil> = 1" by linarith
    with 1 show ?thesis by (simp add: Let_def)
  qed
qed


text \<open>
  C5, as stated, at \<open>totalRecords = 9007199254740993\<close> (\<open>2^53 + 1\<close>) and \<open>pageSize = 1\<close>:
  a float64 has a significand of 53 bits, \<open>float64(totalRecords)\<close> is \<open>2^53\<close>, and
  \<open>LastPage\<close> is \<open>9007199254740992\<close>, one less than \<open>ceil(total / size)\<close>.
\<close>

theorem calculateMetadata_precision_counterexample:
  "1 \<le> sint (9007199254740993 :: goint) \<and> 1 \<le> sint (1 :: goint)
   \<and> calculateMetadata 9007199254740993 1 1
       = Some \<lparr>CurrentPage = 1, PageSize_meta = 1, FirstPage = 1, LastPage = 9007199254740992,
                TotalRecords = 9007199254740993\<rparr>
   \<and> \<lceil>rat_of_int (sint (9007199254740993 :: goint)) / rat_of_int (sint (1 :: goint))\<rceil>
       = 9007199254740993"
  by code_simp

text \<open>
  C5 (amended): for every total with \<open>1 \<le> total < 2^53\<close>, every page and every size of
  at least 1, \<open>calculateMetadata\<close> returns the Metadata with \<open>FirstPage = 1\<close>,
  \<open>LastPage = ceil(total / size)\<close>, \<open>CurrentPage = page\<close>, \<open>PageSize = size\<close> and
  \<open>TotalRecords = total\<close>.
\<close>

theorem calculateMetadata_last_page:
  assumes "1 \<le> sint totalRecords" and "sint totalRecords < 2 ^ 53" and "1 \<le> sint pageSize"
  shows "calculateMetadata totalRecords page pageSize
     = Some \<lparr>CurrentPage = page, PageSize_meta = pageSize, FirstPage = 1,
              LastPage = word_of_int \<lceil>rat_of_int (sint totalRecords) / rat_of_int (sint pageSize)\<rceil>,
              TotalRecords = totalRecords\<rparr>"
proof -
  from assms(1) have nz: "totalRecords \<noteq> 0" by auto
  have "sint pageSize < 2 ^ 63" using sint_lt [of pageSize] by simp
  from last_page_float [OF assms this] nz show ?thesis
    by (simp add: calculateMetadata_def float64_def)
qed

theorem calculateMetadata_last_page_witness:
  "1 \<le> sint (7 :: goint) \<and> sint (7 :: goint) < 2 ^ 53 \<and> 1 \<le> sint (5 :: goint)
   \<and> calculateMetadata 7 1 5
       = Some \<lparr>CurrentPage = 1, PageSize_meta = 5, FirstPage = 1, LastPage = 2, TotalRecords = 7\<rparr>"
proof -
  have "\<lceil>(7::rat) / 5\<rceil> = 2"
    by (rule ceiling_unique) simp_all
  with calculateMetadata_last_page [of 7 5 1] show ?thesis by simp
qed


section \<open>Pagination metadata\<close>

text \<open>
  C8: with zero total records \<open>calculateMetadata\<close> returns the all-zero Metadata, whatever
  the page and the page size are.
\<close>

theorem calculateMetadata_zero:
  "calculateMetadata 0 page pageSize
     = Some \<lparr>CurrentPage = 0, PageSize_meta = 0, FirstPage = 0, LastPage = 0, TotalRecords = 0\<rparr>"
  by (simp add: calculateMetadata_def)

section \<open>Enrichment extraction\<close>


lemma first_some_SomeD: "first_some xs = Some y \<Longrightarrow> Some y \<in> set xs"
  by (induction xs rule: first_some.induct) auto

lemma take_nonempty: "1 \<le> k \<Longrightarrow> k < Suc (length (takeWhile P s)) \<Longrightarrow> take k s \<noteq> []"
  by (cases s) auto

lemma match_here_caps:
  "match_here as s caps = Some (r, caps') \<Longrightarrow>
     \<exists>extra. caps' = caps @ extra \<and> length extra = ncaps as \<and> [] \<notin> set extra"
proof (induction as arbitrary: s caps)
  case Nil
  then show ?case by simp
next
  case (Cons a as)
  show ?case
  proof (cases a)
    case (Lit fc c)
    with Cons.prems obtain s' where "match_here as s' caps = Some (r, caps')"
      by (auto split: option.splits)
    from Cons.IH [OF this] Lit show ?thesis by simp
  next
    case (NotPlus c)
    with Cons.prems have "Some (r, caps') \<in> set (map (\<lambda>k. match_here as (drop k s) caps)
        (rev [1 ..< Suc (length (takeWhile (\<lambda>d. d \<noteq> c) s))]))"
      by (auto dest: first_some_SomeD)
    then obtain k where "match_here as (drop k s) caps = Some (r, caps')"
      by auto
    from Cons.IH [OF this] NotPlus show ?thesis by simp
  next
    case (CapNotPlus c)
    with Cons.prems have "Some (r, caps') \<in> set (map (\<lambda>k. match_here as (drop k s) (caps @ [take k s]))
        (rev [1 ..< Suc (length (takeWhile (\<lambda>d. d \<noteq> c) s))]))"
      by (auto dest: first_some_SomeD)
    then obtain k where k: "1 \<le> k" "k < Suc (length (takeWhile (\<lambda>d. d \<noteq> c) s))"
      and m: "match_here as (drop k s) (caps @ [take k s]) = Some (r, caps')"
      by auto
    from Cons.IH [OF m] obtain extra where
      e: "caps' = (caps @ [take k s]) @ extra" "length extra = ncaps as" "[] \<notin> set extra"
      by blast
    have "take k s \<noteq> []" using k by (rule take_nonempty)
    with e CapNotPlus show ?thesis
      by (intro exI [of _ "take k s # extra"]) auto
  qed
qed

lemma FindStringSubmatch_shape:
  "FindStringSubmatch re s = [] \<or>
   (\<exists>whole caps. FindStringSubmatch re s = whole # caps \<and> length caps = ncaps re \<and> [] \<notin> set caps)"
proof (induction s)
  case Nil
  show ?case
  proof (cases "match_here re [] []")
    case None
    then show ?thesis by simp
  next
    case (Some a)
    obtain r caps where "a = (r, caps)" by (cases a)
    with Some match_here_caps [of re "[]" "[]" r caps] show ?thesis by auto
  qed
next
  case (Cons c s)
  show ?case
  proof (cases "match_here re (c # s) []")
    case None
    with Cons show ?thesis by simp
  next
    case (Some a)
    obtain r caps where "a = (r, caps)" by (cases a)
    with Some match_here_caps [of re "c # s" "[]" r caps] show ?thesis by auto
  qed
qed

lemma compile_description:
  \<open>MustCompile ''(?i)<meta[^>]+name="description"[^>]+content="([^"]+)"'' = Some description_re\<close>
  by (simp add: MustCompile_def meta_chars_def is_letter_def starts_class_def description_re_def)

lemma compile_image:
  \<open>MustCompile ''(?i)<meta[^>]+property="og:image"[^>]+content="([^"]+)"'' = Some image_re\<close>
  by (simp add: MustCompile_def meta_chars_def is_letter_def starts_class_def image_re_def)

lemma ncaps_description: "ncaps description_re = 1"
  by (simp add: description_re_def)

lemma ncaps_image: "ncaps image_re = 1"
  by (simp add: image_re_def)


lemma submatch_nonempty:
  assumes "ncaps re = 1" and "submatch re html = Some v"
  shows "v \<noteq> []"
proof -
  from assms(2) have len: "length (FindStringSubmatch re html) > 1"
    and v: "v = FindStringSubmatch re html ! 1"
    by (auto simp: submatch_def Let_def split: if_splits)
  from FindStringSubmatch_shape [of re html] len obtain whole caps where
    ms: "FindStringSubmatch re html = whole # caps" "length caps = ncaps re" "[] \<notin> set caps"
    by auto
  with assms(1) obtain c where "caps = [c]"
    by (cases caps) auto
  with ms v show ?thesis by auto
qed

lemma enrich_entry_description:
  "enrich_entry html m (hd enrichmentTable)
     = Some (case submatch description_re html of None \<Rightarrow> m | Some v \<Rightarrow> m(''description'' \<mapsto> v))"
  by (simp add: enrich_entry_def enrichmentTable_def compile_description submatch_def Let_def)

lemma enrich_entry_image:
  "enrich_entry html m (last enrichmentTable)
     = Some (case submatch image_re html of None \<Rightarrow> m | Some v \<Rightarrow> m(''image'' \<mapsto> v))"
  by (simp add: enrich_entry_def enrichmentTable_def compile_image submatch_def Let_def)

lemma enrichmentTable_nth: "enrichmentTable = [hd enrichmentTable, last enrichmentTable]"
  by (simp add: enrichmentTable_def)

lemma mset_two: "mset xs = mset [a, b] \<Longrightarrow> xs = [a, b] \<or> xs = [b, a]"
proof -
  assume eq: "mset xs = mset [a, b]"
  then have "size (mset xs) = size (mset [a, b])" by simp
  then have "length xs = 2" by simp
  then obtain x y where xs: "xs = [x, y]"
    by (auto simp: numeral_2_eq_2 length_Suc_conv)
  with eq show ?thesis
    by (auto simp: add_eq_conv_ex)
qed

lemma range_order_cases:
  "range_order order \<Longrightarrow>
     order = [hd enrichmentTable, last enrichmentTable] \<or> order = [last enrichmentTable, hd enrichmentTable]"
  unfolding range_order_def using enrichmentTable_nth mset_two by metis

lemma enrich_loop_range_order:
  assumes "range_order order"
  shows "enrich_loop order html Map.empty = Some (extracted html)"
proof -
  from range_order_cases [OF assms] show ?thesis
  proof
    assume "order = [hd enrichmentTable, last enrichmentTable]"
    then show ?thesis
      by (auto simp: enrich_entry_description enrich_entry_image extracted_def
          split: option.splits)
  next
    assume "order = [last enrichmentTable, hd enrichmentTable]"
    then show ?thesis
      by (auto simp: enrich_entry_description enrich_entry_image extracted_def
          split: option.splits)
  qed
qed

lemma extractEnrichments_range_order:
  "range_order order \<Longrightarrow> extractEnrichments order html = Some (extracted html, None)"
  by (simp add: extractEnrichments_def enrich_loop_range_order)

lemma dom_extracted: "dom (extracted html) \<subseteq> {''description'', ''image''}"
  by (auto simp: extracted_def split: if_splits)

lemma extracted_nonempty: "extracted html k = Some v \<Longrightarrow> v \<noteq> []"
  by (auto simp: extracted_def ncaps_description ncaps_image split: if_splits
      dest: submatch_nonempty [rotated])

text \<open>
  C9: extraction is deterministic. Two runs of \<open>extractEnrichments\<close> on the same HTML can
  differ only in the order in which \<open>range\<close> yields the entries of \<open>enrichmentTable\<close>, and
  every order gives the same mapping (and the same nil error).
\<close>

theorem extractEnrichments_deterministic:
  "range_order order1 \<Longrightarrow> range_order order2 \<Longrightarrow>
     extractEnrichments order1 html = extractEnrichments order2 html"
  by (simp add: extractEnrichments_range_order)

theorem extractEnrichments_deterministic_witness:
  "range_order enrichmentTable \<and> range_order (rev enrichmentTable)
   \<and> extractEnrichments enrichmentTable both_page
       = extractEnrichments (rev enrichmentTable) both_page"
  using extractEnrichments_deterministic [of enrichmentTable "rev enrichmentTable" both_page]
  by (simp add: range_order_def)

text \<open>
  C10: for every HTML string \<open>extractEnrichments\<close> returns (it does not panic), its error
  is nil, the keys of the mapping are among \<open>description\<close> and \<open>image\<close>, and no value of the
  mapping is the empty string.
\<close>

theorem extractEnrichments_result:
  "range_order order \<Longrightarrow>
     \<exists>enrichments. extractEnrichments order html = Some (enrichments, None)
        \<and> dom enrichments \<subseteq> {''description'', ''image''}
        \<and> [] \<notin> ran enrichments"
  using dom_extracted [of html] extracted_nonempty [of html]
  by (auto simp: extractEnrichments_range_order ran_def)

theorem extractEnrichments_result_witness:
  "range_order (rev enrichmentTable)
   \<and> (\<exists>enrichments. extractEnrichments (rev enrichmentTable) both_page = Some (enrichments, None)
        \<and> dom enrichments \<subseteq> {''description'', ''image''}
        \<and> [] \<notin> ran enrichments)"
  using extractEnrichments_result [of "rev enrichmentTable" both_page]
  by (simp add: range_order_def)

text \<open>The cases of \<open>Test_ExtractEnrichments\<close> (the pages on one line).\<close>

lemma Test_ExtractEnrichments_empty:
  "fields (extractEnrichments enrichmentTable []) = Some (None, None, None)"
  by code_simp

lemma Test_ExtractEnrichments_no_meta:
  "fields (extractEnrichments enrichmentTable ''<html></html>'') = Some (None, None, None)"
  by code_simp

lemma Test_ExtractEnrichments_description:
  \<open>fields (extractEnrichments enrichmentTable
      ''<html><meta name="description" content="test description"></html>'')
    = Some (Some ''test description'', None, None)\<close>
  by code_simp

lemma Test_ExtractEnrichments_both:
  "fields (extractEnrichments (rev enrichmentTable) both_page)
    = Some (Some ''test description'', Some ''http://example.com/image.jpg'', None)"
  by code_simp

section \<open>Fetching\<close>

text \<open>
  C7, as stated, at a response with status 203 and a readable body: the status is a 2xx
  one, and \<open>getContents\<close> fails with ``unexpected status code: 203''.
\<close>

theorem getContents_203_counterexample:
  "200 \<le> StatusCode \<lparr>StatusCode = 203, Body = Inr ''<rss></rss>''\<rparr>
   \<and> StatusCode \<lparr>StatusCode = 203, Body = Inr ''<rss></rss>''\<rparr> < 300
   \<and> Do (answering 203 ''<rss></rss>'') ''http://feed'' = Inr \<lparr>StatusCode = 203, Body = Inr ''<rss></rss>''\<rparr>
   \<and> getContents (answering 203 ''<rss></rss>'') ''http://feed'' = Inl (ErrStatus 203)"
  by (simp add: getContents_def answering_def StatusOK_def)

text \<open>
  C7 (amended): \<open>getContents\<close> succeeds exactly when the request can be built, the
  transport returns a response, its status is 200 and its body can be read, and then it
  returns the raw body. It fails exactly on a request that cannot be built, a transport
  error, a status other than 200 or a body-read error, and the error carries the cause:
  it wraps the underlying error, or names the status code.
\<close>

theorem getContents_outcome:
  "(getContents w url = Inr body \<longleftrightarrow>
      NewRequest w url = None
      \<and> (\<exists>resp. Do w url = Inr resp \<and> StatusCode resp = 200 \<and> Body resp = Inr body))
   \<and> (getContents w url = Inl e \<longleftrightarrow>
        (\<exists>c. NewRequest w url = Some c \<and> e = Wrap ''failed to create request'' c)
      \<or> (NewRequest w url = None \<and> (\<exists>c. Do w url = Inl c \<and> e = Wrap ''failed to get feed'' c))
      \<or> (NewRequest w url = None
          \<and> (\<exists>resp. Do w url = Inr resp \<and> StatusCode resp \<noteq> 200 \<and> e = ErrStatus (StatusCode resp)))
      \<or> (NewRequest w url = None
          \<and> (\<exists>resp c. Do w url = Inr resp \<and> StatusCode resp = 200 \<and> Body resp = Inl c
                \<and> e = Wrap ''failed to read body'' c)))"
  by (auto simp: getContents_def StatusOK_def split: option.splits sum.splits)

theorem getContents_outcome_witness:
  "getContents (answering 200 ''<rss></rss>'') ''http://feed'' = Inr ''<rss></rss>''
   \<and> getContents unreachable ''http://feed''
       = Inl (Wrap ''failed to get feed'' (External ''connection refused''))"
  using getContents_outcome [of "answering 200 ''<rss></rss>''" "''http://feed''" "''<rss></rss>''"]
    getContents_outcome [of unreachable "''http://feed''" _
      "Wrap ''failed to get feed'' (External ''connection refused'')"]
  by (simp add: answering_def unreachable_def)

section \<open>The enrichment step\<close>









lemma EnrichNewsItem_failed_keeps:
  "snd (EnrichNewsItem order w d link) \<noteq> None \<Longrightarrow>
     news (fst (EnrichNewsItem order w d link)) = news d"
  by (auto simp: EnrichNewsItem_def GetNewsItem_def SaveNewsItem_def next_fault_def Let_def
      split: prod.splits sum.splits option.splits list.splits if_splits)





section \<open>The ingestion cycle\<close>

lemma save_items_keeps: "retry (save_items j items) = retry j \<and> fetched (save_items j items) = fetched j"
  by (induction j items rule: save_items.induct) (auto split: prod.splits option.splits)

lemma save_items_counts:
  "saved (save_items j items) + skipped (save_items j items) \<le> saved j + skipped j + length items"
proof (induction j items rule: save_items.induct)
  case (1 j)
  then show ?case by simp
next
  case (2 j item items)
  then show ?case
    by (auto split: prod.splits option.splits simp: le_Suc_eq)
qed

lemma Publish_published: "Publish q body = (q', e) \<Longrightarrow> published q' = published q @ [body]"
  by (auto simp: Publish_def published_def Let_def split: list.splits option.splits)

lemma save_items_published:
  "length (published (queue (save_items j items))) + saved j
     = length (published (queue j)) + saved (save_items j items)"
proof (induction items arbitrary: j)
  case Nil
  then show ?case by simp
next
  case (Cons item items)
  show ?case
  proof (cases "CreateNewsItem (storage j) item")
    case (fields d item' err)
    show ?thesis
    proof (cases err)
      case None
      obtain q e where p: "Publish (queue j) (Link item') = (q, e)"
        by (cases "Publish (queue j) (Link item')")
      from Publish_published [OF p] fields None p
        Cons [of "j\<lparr>storage := d, saved := saved j + 1, queue := q\<rparr>"]
      show ?thesis by simp
    next
      case (Some e)
      with fields Cons [of "j\<lparr>storage := d, skipped := skipped j + 1\<rparr>"]
        Cons [of "j\<lparr>storage := d\<rparr>"]
      show ?thesis by simp
    qed
  qed
qed

lemma save_items_conflict_step:
  "CreateNewsItem (storage j) item = (d, item', Some ErrAlreadyExists) \<Longrightarrow>
     save_items j (item # rest) = save_items (j\<lparr>storage := d, skipped := skipped j + 1\<rparr>) rest"
  by simp

lemma CreateNewsItem_conflict:
  "Title item \<noteq> [] \<Longrightarrow> Link item \<noteq> [] \<Longrightarrow> faults d = [] \<Longrightarrow>
   Link item \<in> set (map Link (news d)) \<Longrightarrow>
     CreateNewsItem d item = (d\<lparr>serial := serial d + 1\<rparr>, item, Some ErrAlreadyExists)"
  by (simp add: CreateNewsItem_def next_fault_def Let_def)

lemma CreateNewsItem_rows:
  "CreateNewsItem d item = (d', item', err) \<Longrightarrow>
     (err = None \<and> (\<exists>row. news d' = news d @ [row] \<and> Link row = Link item'))
     \<or> (err \<noteq> None \<and> news d' = news d)"
  by (auto simp: CreateNewsItem_def next_fault_def Let_def
      split: if_splits list.splits option.splits)

lemma save_items_rows:
  "\<exists>rows. news (storage (save_items j items)) = news (storage j) @ rows
      \<and> published (queue (save_items j items)) = published (queue j) @ map Link rows
      \<and> saved (save_items j items) = saved j + length rows"
proof (induction items arbitrary: j)
  case Nil
  then show ?case by simp
next
  case (Cons item items)
  show ?case
  proof (cases "CreateNewsItem (storage j) item")
    case (fields d item' err)
    show ?thesis
    proof (cases err)
      case None
      obtain q e where p: "Publish (queue j) (Link item') = (q, e)"
        by (cases "Publish (queue j) (Link item')")
      from CreateNewsItem_rows [OF fields] None obtain row where
        row: "news d = news (storage j) @ [row]" "Link row = Link item'"
        by auto
      let ?j = "j\<lparr>storage := d, saved := saved j + 1, queue := q\<rparr>"
      from Cons [of ?j] obtain rows where
        rows: "news (storage (save_items ?j items)) = news (storage ?j) @ rows"
          "published (queue (save_items ?j items)) = published (queue ?j) @ map Link rows"
          "saved (save_items ?j items) = saved ?j + length rows"
        by blast
      have "save_items j (item # items) = save_items ?j items"
        using fields None p by simp
      with rows row Publish_published [OF p] show ?thesis
        by (intro exI [of _ "row # rows"]) simp
    next
      case (Some e)
      from CreateNewsItem_rows [OF fields] Some have same: "news d = news (storage j)"
        by auto
      show ?thesis
      proof (cases "errors_Is e ErrAlreadyExists")
        case True
        with fields Some same Cons [of "j\<lparr>storage := d, skipped := skipped j + 1\<rparr>"]
        show ?thesis by simp
      next
        case False
        with fields Some same Cons [of "j\<lparr>storage := d\<rparr>"]
        show ?thesis by simp
      qed
    qed
  qed
qed


text \<open>
  C6: in the loop over the candidates, a create that fails with \<open>ErrAlreadyExists\<close>
  adds one to \<open>skipped\<close> and the loop goes on with the remaining candidates. For every
  list of candidates, saved plus skipped grows by at most their number; the links handed
  to \<open>Publish\<close> are exactly the links of the rows inserted, one per saved item, in
  order; the loop touches neither the retry counter nor the record of fetches.
\<close>

theorem save_items_conflicts:
  "(CreateNewsItem (storage j) item = (d, item', Some ErrAlreadyExists) \<longrightarrow>
      save_items j (item # rest) = save_items (j\<lparr>storage := d, skipped := skipped j + 1\<rparr>) rest)
   \<and> saved (save_items j items) + skipped (save_items j items)
        \<le> saved j + skipped j + length items
   \<and> (\<exists>rows. news (storage (save_items j items)) = news (storage j) @ rows
        \<and> published (queue (save_items j items)) = published (queue j) @ map Link rows
        \<and> saved (save_items j items) = saved j + length rows)
   \<and> retry (save_items j items) = retry j
   \<and> fetched (save_items j items) = fetched j"
  using save_items_counts [of j items] save_items_rows [of j items] save_items_keeps [of j items]
  by simp

theorem save_items_conflicts_witness:
  "CreateNewsItem (storage (start stale_db empty_mq)) (new_item ''again'' ''http://news/1'')
     = (stale_db\<lparr>serial := 2\<rparr>, new_item ''again'' ''http://news/1'', Some ErrAlreadyExists)
   \<and> save_items (start stale_db empty_mq) (new_item ''again'' ''http://news/1'' # candidates)
       = save_items ((start stale_db empty_mq)\<lparr>storage := stale_db\<lparr>serial := 2\<rparr>, skipped := 1\<rparr>) candidates
   \<and> saved (save_items (start stale_db empty_mq) candidates) = 2
   \<and> skipped (save_items (start stale_db empty_mq) candidates) = 1
   \<and> published (queue (save_items (start stale_db empty_mq) candidates))
       = [''http://news/a'', ''http://news/b'']"
proof -
  have c: "CreateNewsItem (storage (start stale_db empty_mq)) (new_item ''again'' ''http://news/1'')
     = (stale_db\<lparr>serial := 2\<rparr>, new_item ''again'' ''http://news/1'', Some ErrAlreadyExists)"
    by (simp add: CreateNewsItem_def next_fault_def start_def stale_db_def stored_item_def
        new_item_def)
  have e: "saved (save_items (start stale_db empty_mq) candidates) = 2
   \<and> skipped (save_items (start stale_db empty_mq) candidates) = 1
   \<and> published (queue (save_items (start stale_db empty_mq) candidates))
       = [''http://news/a'', ''http://news/b'']"
    by code_simp
  from c e save_items_conflicts [of "start stale_db empty_mq" "new_item ''again'' ''http://news/1''"
      "stale_db\<lparr>serial := 2\<rparr>" "new_item ''again'' ''http://news/1''" candidates candidates]
  show ?thesis by (simp add: start_def)
qed

section \<open>The retry counter of the parsing job\<close>

lemma save_items_retry: "retry (save_items j items) = retry j"
  by (simp add: save_items_keeps)

lemma save_items_fetched: "fetched (save_items j items) = fetched j"
  by (simp add: save_items_keeps)

lemma leading_le_max: "leading_failures bs \<le> max_failures bs"
  by (cases bs) auto

lemma ParsingJob_loop_inv:
  "retry_inv j \<Longrightarrow> ParsingJob_loop rssUrl j ts = (st, j') \<Longrightarrow>
     max_failures (fetched j') \<le> 5
     \<and> (st = Running \<longrightarrow> retry_inv j')
     \<and> (leading_failures (fetched j') = 5 \<longrightarrow> st = Exited \<and> retry j' = 4)"
proof (induction ts arbitrary: j)
  case Nil
  then show ?case using leading_le_max [of "fetched j"] by (auto simp: retry_inv_def)
next
  case (Cons t ts)
  from Cons.prems(1) have le4: "leading_failures (fetched j) \<le> 4"
    using leading_le_max [of "fetched j"] by (simp add: retry_inv_def)
  show ?case
  proof (cases "GetNews (network t) rssUrl")
    case (Inl err)
    let ?j1 = "j\<lparr>fetched := False # fetched j\<rparr>"
    show ?thesis
    proof (cases "retry j > limit_retry")
      case True
      with Inl Cons.prems le4 show ?thesis
        by (auto simp: retry_inv_def limit_retry_def Let_def)
    next
      case False
      let ?j2 = "?j1\<lparr>retry := retry j + 1\<rparr>"
      from False Cons.prems(1) have inv: "retry_inv ?j2"
        by (auto simp: retry_inv_def limit_retry_def)
      show ?thesis
      proof (cases "cancelled t")
        case True
        with Inl False Cons.prems(2) have "st = Exited" "j' = ?j2"
          by (auto simp: Let_def)
        with inv leading_le_max [of "fetched ?j2"] show ?thesis by (auto simp: retry_inv_def)
      next
        case c: False
        with Inl False Cons.prems(2) have "ParsingJob_loop rssUrl ?j2 ts = (st, j')"
          by (auto simp: Let_def)
        from Cons.IH [OF inv this] show ?thesis .
      qed
    qed
  next
    case (Inr items)
    let ?j2 = "save_items (j\<lparr>fetched := True # fetched j, retry := 0, saved := 0, skipped := 0\<rparr>) items"
    from Cons.prems(1) have inv: "retry_inv ?j2"
      by (auto simp: retry_inv_def save_items_retry save_items_fetched)
    show ?thesis
    proof (cases "cancelled t")
      case True
      with Inr Cons.prems(2) have "st = Exited" "j' = ?j2"
        by (auto simp: Let_def)
      with inv leading_le_max [of "fetched ?j2"] show ?thesis by (auto simp: retry_inv_def)
    next
      case False
      with Inr Cons.prems(2) have "ParsingJob_loop rssUrl ?j2 ts = (st, j')"
        by (auto simp: Let_def)
      from Cons.IH [OF inv this] show ?thesis .
    qed
  qed
qed

text \<open>Every input used is one call of \<open>GetNews\<close>, in order; a running loop has used them all.\<close>

lemma ParsingJob_loop_trace:
  "ParsingJob_loop rssUrl j ts = (st, j') \<Longrightarrow>
     \<exists>n\<le>length ts. fetched j' = rev (map (fetch_ok rssUrl) (take n ts)) @ fetched j
        \<and> (st = Running \<longrightarrow> n = length ts)"
proof (induction ts arbitrary: j)
  case Nil
  then show ?case by auto
next
  case (Cons t ts)
  show ?case
  proof (cases "GetNews (network t) rssUrl")
    case (Inl err)
    then have ok: "fetch_ok rssUrl t = False" by (simp add: fetch_ok_def)
    let ?j1 = "j\<lparr>fetched := False # fetched j\<rparr>"
    let ?j2 = "?j1\<lparr>retry := retry j + 1\<rparr>"
    show ?thesis
    proof (cases "retry j > limit_retry \<or> cancelled t")
      case True
      with Inl Cons.prems have "st = Exited" and "fetched j' = False # fetched j"
        by (auto simp: Let_def split: if_splits)
      with ok show ?thesis
        by (intro exI [of _ 1]) simp
    next
      case False
      with Inl Cons.prems have "ParsingJob_loop rssUrl ?j2 ts = (st, j')"
        by (auto simp: Let_def)
      from Cons.IH [OF this] obtain n where
        n: "n \<le> length ts" "fetched j' = rev (map (fetch_ok rssUrl) (take n ts)) @ fetched ?j2"
          "st = Running \<longrightarrow> n = length ts"
        by blast
      with ok show ?thesis
        by (intro exI [of _ "Suc n"]) simp
    qed
  next
    case (Inr items)
    then have ok: "fetch_ok rssUrl t = True" by (simp add: fetch_ok_def)
    let ?j2 = "save_items (j\<lparr>fetched := True # fetched j, retry := 0, saved := 0, skipped := 0\<rparr>) items"
    have f2: "fetched ?j2 = True # fetched j"
      by (simp add: save_items_fetched)
    show ?thesis
    proof (cases "cancelled t")
      case True
      with Inr Cons.prems have "st = Exited" "j' = ?j2"
        by (auto simp: Let_def)
      with ok f2 show ?thesis
        by (intro exI [of _ 1]) simp
    next
      case False
      with Inr Cons.prems have "ParsingJob_loop rssUrl ?j2 ts = (st, j')"
        by (auto simp: Let_def)
      from Cons.IH [OF this] obtain n where
        n: "n \<le> length ts" "fetched j' = rev (map (fetch_ok rssUrl) (take n ts)) @ fetched ?j2"
          "st = Running \<longrightarrow> n = length ts"
        by blast
      with ok f2 show ?thesis
        by (intro exI [of _ "Suc n"]) simp
    qed
  qed
qed

text \<open>Without cancellation the loop ends in one way only: at the fifth failure in a row.\<close>

lemma ParsingJob_loop_exit:
  "retry_inv j \<Longrightarrow> \<forall>t\<in>set ts. \<not> cancelled t \<Longrightarrow> ParsingJob_loop rssUrl j ts = (Exited, j') \<Longrightarrow>
     leading_failures (fetched j') = 5 \<and> retry j' = 4 \<and> max_failures (tl (fetched j')) \<le> 4"
proof (induction ts arbitrary: j)
  case Nil
  then show ?case by simp
next
  case (Cons t ts)
  from Cons.prems(2) have nc: "\<not> cancelled t" and rest: "\<forall>t\<in>set ts. \<not> cancelled t"
    by simp_all
  from Cons.prems(1) have le4: "leading_failures (fetched j) \<le> 4"
    using leading_le_max [of "fetched j"] by (simp add: retry_inv_def)
  show ?case
  proof (cases "GetNews (network t) rssUrl")
    case (Inl err)
    show ?thesis
    proof (cases "retry j > limit_retry")
      case True
      with Inl Cons.prems(3) have "j' = j\<lparr>fetched := False # fetched j\<rparr>"
        by (auto simp: Let_def)
      with True Cons.prems(1) le4 show ?thesis
        by (auto simp: retry_inv_def limit_retry_def)
    next
      case False
      let ?j2 = "j\<lparr>fetched := False # fetched j, retry := retry j + 1\<rparr>"
      from False Cons.prems(1) have inv: "retry_inv ?j2"
        by (auto simp: retry_inv_def limit_retry_def)
      from Inl False nc Cons.prems(3) have "ParsingJob_loop rssUrl ?j2 ts = (Exited, j')"
        by (auto simp: Let_def)
      from Cons.IH [OF inv rest this] show ?thesis .
    qed
  next
    case (Inr items)
    let ?j2 = "save_items (j\<lparr>fetched := True # fetched j, retry := 0, saved := 0, skipped := 0\<rparr>) items"
    from Cons.prems(1) have inv: "retry_inv ?j2"
      by (auto simp: retry_inv_def save_items_retry save_items_fetched)
    from Inr nc Cons.prems(3) have "ParsingJob_loop rssUrl ?j2 ts = (Exited, j')"
      by (auto simp: Let_def)
    from Cons.IH [OF inv rest this] show ?thesis .
  qed
qed

lemma retry_inv_start: "retry_inv (start d q)"
  by (simp add: retry_inv_def start_def)

lemma ParsingJob_loop_earlier_inv:
  "retry_inv_earlier j \<Longrightarrow> ParsingJob_loop_earlier rssUrl j ts = (st, j') \<Longrightarrow>
     max_failures (fetched j') \<le> 4
     \<and> (st = Running \<longrightarrow> retry_inv_earlier j')
     \<and> (leading_failures (fetched j') = 4 \<longrightarrow> st = Exited \<and> retry j' = 4)"
proof (induction ts arbitrary: j)
  case Nil
  then show ?case by (auto simp: retry_inv_earlier_def)
next
  case (Cons t ts)
  show ?case
  proof (cases "GetNews (network t) rssUrl")
    case (Inl err)
    let ?j1 = "j\<lparr>fetched := False # fetched j, retry := retry j + 1\<rparr>"
    show ?thesis
    proof (cases "retry ?j1 > limit_retry")
      case True
      with Inl Cons.prems show ?thesis
        by (auto simp: retry_inv_earlier_def limit_retry_def Let_def)
    next
      case False
      with Cons.prems(1) have inv: "retry_inv_earlier ?j1"
        by (auto simp: retry_inv_earlier_def limit_retry_def)
      show ?thesis
      proof (cases "cancelled t")
        case True
        with Inl False Cons.prems(2) have "st = Exited" "j' = ?j1"
          by (auto simp: Let_def)
        with inv show ?thesis by (auto simp: retry_inv_earlier_def)
      next
        case c: False
        with Inl False Cons.prems(2) have "ParsingJob_loop_earlier rssUrl ?j1 ts = (st, j')"
          by (auto simp: Let_def)
        from Cons.IH [OF inv this] show ?thesis .
      qed
    qed
  next
    case (Inr items)
    let ?j2 = "save_items (j\<lparr>fetched := True # fetched j, retry := 0, saved := 0, skipped := 0\<rparr>) items"
    from Cons.prems(1) have inv: "retry_inv_earlier ?j2"
      by (auto simp: retry_inv_earlier_def save_items_retry save_items_fetched)
    show ?thesis
    proof (cases "cancelled t")
      case True
      with Inr Cons.prems(2) have "st = Exited" "j' = ?j2"
        by (auto simp: Let_def)
      with inv show ?thesis by (auto simp: retry_inv_earlier_def)
    next
      case False
      with Inr Cons.prems(2) have "ParsingJob_loop_earlier rssUrl ?j2 ts = (st, j')"
        by (auto simp: Let_def)
      from Cons.IH [OF inv this] show ?thesis .
    qed
  qed
qed

lemma ParsingJob_earlier_retries:
  "ParsingJob_earlier rssUrl d q ts = (st, j) \<Longrightarrow>
     (st = Running \<longrightarrow> retry j = int (leading_failures (fetched j)) \<and> retry j \<le> 3)
     \<and> (leading_failures (fetched j) = 4 \<longrightarrow> st = Exited)
     \<and> max_failures (fetched j) \<le> 4"
  using ParsingJob_loop_earlier_inv [of "start d q" rssUrl ts st j]
  by (auto simp: ParsingJob_earlier_def retry_inv_earlier_def start_def)

lemma GetNews_unreachable:
  "GetNews unreachable url
     = Inl (Wrap ''failed to get feed'' (Wrap ''failed to get feed'' (External ''connection refused'')))"
  by (simp add: GetNews_def getContents_def unreachable_def)

lemma ParsingJob_loop_down:
  "ParsingJob_loop url j (down # ts)
     = (if retry j > 3 then (Exited, j\<lparr>fetched := False # fetched j\<rparr>)
        else ParsingJob_loop url (j\<lparr>fetched := False # fetched j, retry := retry j + 1\<rparr>) ts)"
  by (simp add: down_def GetNews_unreachable limit_retry_def Let_def)

lemma ParsingJob_loop_earlier_down:
  "ParsingJob_loop_earlier url j (down # ts)
     = (if retry j + 1 > 3 then (Exited, j\<lparr>fetched := False # fetched j, retry := retry j + 1\<rparr>)
        else ParsingJob_loop_earlier url
               (j\<lparr>fetched := False # fetched j, retry := retry j + 1\<rparr>) ts)"
  by (simp add: down_def GetNews_unreachable limit_retry_def Let_def)

lemma ParsingJob_earlier_four_attempts:
  "ParsingJob_earlier ''http://feed'' empty_db empty_mq [down, down, down, down, down]
     = (Exited, \<lparr>retry = 4, storage = empty_db, queue = empty_mq, saved = 0, skipped = 0,
                 fetched = [False, False, False, False]\<rparr>)"
  by (simp add: ParsingJob_earlier_def start_def ParsingJob_loop_earlier_down
      del: ParsingJob_loop_earlier.simps(2))

text \<open>
  C3, as stated, on a feed that cannot be fetched: after the fourth consecutive failure
  the counter is 4, above the limit of 3, and the job is still running (it has backed off
  once more); it makes a fifth attempt, and exits when that one fails. The comparison
  \<open>retry > limit\<close> comes before the increment in the current loop.
\<close>

theorem ParsingJob_fifth_attempt_counterexample:
  "limit_retry = 3
   \<and> ParsingJob ''http://feed'' empty_db empty_mq [down, down, down, down]
       = (Running, \<lparr>retry = 4, storage = empty_db, queue = empty_mq, saved = 0, skipped = 0,
                    fetched = [False, False, False, False]\<rparr>)
   \<and> ParsingJob ''http://feed'' empty_db empty_mq [down, down, down, down, down]
       = (Exited, \<lparr>retry = 4, storage = empty_db, queue = empty_mq, saved = 0, skipped = 0,
                   fetched = [False, False, False, False, False]\<rparr>)"
  by (simp add: ParsingJob_def start_def ParsingJob_loop_down limit_retry_def
      del: ParsingJob_loop.simps(2))

lemma leading_failures_replicate: "leading_failures (replicate k False) = k"
  by (induction k) auto

lemma map_fetch_ok_failing:
  "\<forall>t\<in>set ts. \<not> fetch_ok rssUrl t \<Longrightarrow> map (fetch_ok rssUrl) ts = replicate (length ts) False"
  by (induction ts) auto

text \<open>
  C3 (amended): while the job runs, the retry counter is the number of consecutive
  failed fetches since the last successful one (a successful fetch-and-decode resets it
  to zero, each failure adds one) and is at most 4. The job terminates at a failure that
  finds the counter already above the limit of 3, that is at the fifth consecutive
  failure, and unless it is cancelled in no other way: after each of the first four
  consecutive failures it backs off and fetches again, at the fifth it exits. No run of
  consecutive failing attempts is ever longer than five. Every input is one attempt, made
  in order.
\<close>

theorem ParsingJob_retries:
  assumes "ParsingJob rssUrl d q ts = (st, j)"
  shows "(st = Running \<longrightarrow>
            retry j = int (leading_failures (fetched j)) \<and> retry j \<le> 4
            \<and> max_failures (fetched j) \<le> 4)
     \<and> (leading_failures (fetched j) = 5 \<longrightarrow> st = Exited)
     \<and> max_failures (fetched j) \<le> 5
     \<and> (\<exists>n\<le>length ts. fetched j = rev (map (fetch_ok rssUrl) (take n ts))
            \<and> (st = Running \<longrightarrow> n = length ts))
     \<and> ((\<forall>t\<in>set ts. \<not> cancelled t) \<and> st = Exited \<longrightarrow>
            leading_failures (fetched j) = 5 \<and> retry j = 4
            \<and> max_failures (tl (fetched j)) \<le> 4)
     \<and> ((\<forall>t\<in>set ts. \<not> cancelled t \<and> \<not> fetch_ok rssUrl t) \<and> length ts \<le> 4 \<longrightarrow>
            st = Running \<and> retry j = int (length ts)
            \<and> fetched j = replicate (length ts) False)
     \<and> ((\<forall>t\<in>set ts. \<not> cancelled t \<and> \<not> fetch_ok rssUrl t) \<and> 5 \<le> length ts \<longrightarrow>
            st = Exited \<and> retry j = 4 \<and> fetched j = replicate 5 False)"
proof -
  from assms have loop: "ParsingJob_loop rssUrl (start d q) ts = (st, j)"
    by (simp add: ParsingJob_def)
  note inv = ParsingJob_loop_inv [OF retry_inv_start loop]
  from inv have run: "st = Running \<longrightarrow>
      retry j = int (leading_failures (fetched j)) \<and> retry j \<le> 4 \<and> max_failures (fetched j) \<le> 4"
    using leading_le_max [of "fetched j"] by (auto simp: retry_inv_def)
  from inv have five: "leading_failures (fetched j) = 5 \<longrightarrow> st = Exited"
    and mx: "max_failures (fetched j) \<le> 5"
    by simp_all
  from ParsingJob_loop_trace [OF loop] obtain n where
    n: "n \<le> length ts" "fetched j = rev (map (fetch_ok rssUrl) (take n ts))"
      "st = Running \<longrightarrow> n = length ts"
    by (auto simp: start_def)
  have ex: "(\<forall>t\<in>set ts. \<not> cancelled t) \<and> st = Exited \<longrightarrow>
      leading_failures (fetched j) = 5 \<and> retry j = 4 \<and> max_failures (tl (fetched j)) \<le> 4"
    using ParsingJob_loop_exit [OF retry_inv_start, of ts rssUrl d q j] loop by auto
  have st: "st = Running \<or> st = Exited" by (cases st) auto
  have failing: "fetched j = replicate n False"
    if "\<forall>t\<in>set ts. \<not> cancelled t \<and> \<not> fetch_ok rssUrl t"
  proof -
    from that have "\<forall>t\<in>set (take n ts). \<not> fetch_ok rssUrl t"
      by (auto dest: in_set_takeD)
    from map_fetch_ok_failing [OF this] n(1,2) show ?thesis by simp
  qed
  have few: "(\<forall>t\<in>set ts. \<not> cancelled t \<and> \<not> fetch_ok rssUrl t) \<and> length ts \<le> 4 \<longrightarrow>
      st = Running \<and> retry j = int (length ts) \<and> fetched j = replicate (length ts) False"
  proof (intro impI, elim conjE)
    assume a: "\<forall>t\<in>set ts. \<not> cancelled t \<and> \<not> fetch_ok rssUrl t" and l: "length ts \<le> 4"
    from failing [OF a] have f: "fetched j = replicate n False" .
    have "st \<noteq> Exited"
    proof
      assume "st = Exited"
      with ex a have "leading_failures (fetched j) = 5" by auto
      with f have "n = 5" by (simp add: leading_failures_replicate)
      with n(1) l show False by simp
    qed
    with st have r: "st = Running" by simp
    with n(3) f have "fetched j = replicate (length ts) False" by simp
    with r run show "st = Running \<and> retry j = int (length ts) \<and> fetched j = replicate (length ts) False"
      by (simp add: leading_failures_replicate)
  qed
  have many: "(\<forall>t\<in>set ts. \<not> cancelled t \<and> \<not> fetch_ok rssUrl t) \<and> 5 \<le> length ts \<longrightarrow>
      st = Exited \<and> retry j = 4 \<and> fetched j = replicate 5 False"
  proof (intro impI, elim conjE)
    assume a: "\<forall>t\<in>set ts. \<not> cancelled t \<and> \<not> fetch_ok rssUrl t" and l: "5 \<le> length ts"
    from failing [OF a] have f: "fetched j = replicate n False" .
    have "st \<noteq> Running"
    proof
      assume r: "st = Running"
      with n(3) f have "fetched j = replicate (length ts) False" by simp
      then have "leading_failures (fetched j) = length ts"
        by (simp add: leading_failures_replicate)
      with r run l leading_le_max [of "fetched j"] show False by simp
    qed
    with st have e: "st = Exited" by simp
    with ex a have "leading_failures (fetched j) = 5" "retry j = 4" by auto
    with f e show "st = Exited \<and> retry j = 4 \<and> fetched j = replicate 5 False"
      by (simp add: leading_failures_replicate)
  qed
  from run five mx n ex few many show ?thesis by blast
qed

theorem ParsingJob_retries_witness:
  "ParsingJob ''http://feed'' empty_db empty_mq [down, down, down, down]
       = (Running, \<lparr>retry = 4, storage = empty_db, queue = empty_mq, saved = 0, skipped = 0,
                    fetched = [False, False, False, False]\<rparr>)
   \<and> ParsingJob ''http://feed'' empty_db empty_mq [down, down, down, down, down, down]
       = (Exited, \<lparr>retry = 4, storage = empty_db, queue = empty_mq, saved = 0, skipped = 0,
                   fetched = [False, False, False, False, False]\<rparr>)
   \<and> \<not> cancelled down \<and> \<not> fetch_ok ''http://feed'' down
   \<and> leading_failures [False, False, False, False, False] = 5
   \<and> max_failures (tl [False, False, False, False, False]) \<le> 4"
proof -
  have nc: "\<not> cancelled down \<and> \<not> fetch_ok ''http://feed'' down"
    by (simp add: down_def fetch_ok_def GetNews_unreachable)
  obtain st4 j4 where r4: "ParsingJob ''http://feed'' empty_db empty_mq [down, down, down, down] = (st4, j4)"
    by (cases "ParsingJob ''http://feed'' empty_db empty_mq [down, down, down, down]")
  obtain st6 j6 where
    r6: "ParsingJob ''http://feed'' empty_db empty_mq [down, down, down, down, down, down] = (st6, j6)"
    by (cases "ParsingJob ''http://feed'' empty_db empty_mq [down, down, down, down, down, down]")
  from ParsingJob_retries [OF r4] nc
  have a4: "st4 = Running \<and> retry j4 = 4 \<and> fetched j4 = [False, False, False, False]"
    by (simp add: numeral_eq_Suc)
  from ParsingJob_retries [OF r6] nc
  have a6: "st6 = Exited \<and> retry j6 = 4 \<and> fetched j6 = [False, False, False, False, False]"
    by (simp add: numeral_eq_Suc)
  have e4: "ParsingJob ''http://feed'' empty_db empty_mq [down, down, down, down]
       = (Running, \<lparr>retry = 4, storage = empty_db, queue = empty_mq, saved = 0, skipped = 0,
                    fetched = [False, False, False, False]\<rparr>)"
    by (simp add: ParsingJob_def start_def ParsingJob_loop_down del: ParsingJob_loop.simps(2))
  have e6: "ParsingJob ''http://feed'' empty_db empty_mq [down, down, down, down, down, down]
       = (Exited, \<lparr>retry = 4, storage = empty_db, queue = empty_mq, saved = 0, skipped = 0,
                   fetched = [False, False, False, False, False]\<rparr>)"
    by (simp add: ParsingJob_def start_def ParsingJob_loop_down del: ParsingJob_loop.simps(2))
  from a4 a6 r4 r6 e4 e6 nc show ?thesis by simp
qed

end
